theory Spec2Isabelle
  imports Complex_Main "HOL-Library.Word"
begin

unbundle bit_operations_syntax

section \<open>Basic data\<close>

text \<open>
  Bytes are 8-bit words. A playback sample is a float32 in the source; the model uses
  real numbers. Every value \<open>k / 32768\<close> with \<open>k\<close> a 16-bit integer is a float32, so
  the conversion of TTS payloads is exact. Python \<open>str\<close> values are lists of Unicode
  code points.
\<close>

type_synonym byte = "8 word"
type_synonym chunk = "byte list"
type_synonym sample = real
type_synonym frame = "sample list"
type_synonym pystr = "nat list"

datatype warning =
    Audio_buffer_full nat
  | Send_queue_full
  | Reset_time_base real
  | Connect_failed nat nat
  | Watchdog_reconnect_failed nat
  | Audio_send_slow
  | Reconnect_in nat nat

section \<open>SimplePCMPlayer\<close>

record player =
  channels :: nat
  buffer :: "frame list"
  running :: bool
  last_sample :: sample
  total_samples :: nat
  player_log :: "warning list"

definition max_buffer_size :: nat where
  "max_buffer_size = 50"

definition new_player :: player where
  "new_player = \<lparr>channels = 1, buffer = [], running = False, last_sample = 0,
     total_samples = 0, player_log = []\<rparr>"

text \<open>
  The end-of-sentence fade of \<open>enqueue_float32\<close>: only frames longer than 96 samples are
  shaped. The parameter \<open>curve\<close> stands for the floating-point table
  \<open>np.cos(np.linspace(0, np.pi/2, n))\<close>, which has \<open>n\<close> entries; the last \<open>fade_samples\<close>
  samples are multiplied by it entry by entry.
\<close>

type_synonym curve = "nat \<Rightarrow> sample list"

definition fade_tail :: "curve \<Rightarrow> frame \<Rightarrow> frame" where
  "fade_tail curve pcm =
     (if length pcm > 96 then
        (let fade_samples = min 96 (length pcm div 20)
         in take (length pcm - fade_samples) pcm @
            map (\<lambda>i. pcm ! (length pcm - fade_samples + i) * curve fade_samples ! i)
              [0..<fade_samples])
      else pcm)"

definition enqueue_float32 :: "curve \<Rightarrow> player \<Rightarrow> frame \<Rightarrow> player" where
  "enqueue_float32 curve p pcm0 =
     (let pcm = fade_tail curve pcm0;
          p1 = (if length (buffer p) \<ge> max_buffer_size
                then (case buffer p of
                        [] \<Rightarrow> p
                      | dropped # rest \<Rightarrow>
                          p\<lparr>buffer := rest,
                            player_log := player_log p @ [Audio_buffer_full (length dropped)]\<rparr>)
                else p)
      in p1\<lparr>buffer := buffer p1 @ [pcm], total_samples := total_samples p1 + length pcm\<rparr>)"

text \<open>\<open>stop\<close>: the stream is closed and the FIFO cleared.\<close>

definition player_stop :: "player \<Rightarrow> player" where
  "player_stop p = p\<lparr>running := False, buffer := []\<rparr>"

text \<open>
  The loop of \<open>_callback\<close> that fills the output block from the head of the FIFO: \<open>out\<close> is
  the part of the block filled so far, \<open>lst\<close> the last sample played. A frame that is not
  used up stays at the head, shortened.
\<close>

function callback_fill ::
  "nat \<Rightarrow> frame list \<Rightarrow> sample list \<Rightarrow> sample \<Rightarrow> frame list \<times> sample list \<times> sample" where
  "callback_fill samples_needed buf out lst =
     (case buf of
        [] \<Rightarrow> (buf, out, lst)
      | chunk # rest \<Rightarrow>
          if length out < samples_needed
          then (let take_n = min (length chunk) (samples_needed - length out);
                    out1 = out @ take take_n chunk;
                    lst1 = (if take_n > 0 then chunk ! (take_n - 1) else lst)
                in if take_n < length chunk
                   then callback_fill samples_needed (drop take_n chunk # rest) out1 lst1
                   else callback_fill samples_needed rest out1 lst1)
          else (buf, out, lst))"
  by pat_completeness auto
termination
  by (relation "measure (\<lambda>(n, buf, out, lst). 2 * length buf + (if length out < n then 1 else 0))")
     (auto simp: min_def split: if_splits)

declare callback_fill.simps [simp del]

text \<open>\<open>np.linspace(a, b, n)\<close>, over the reals.\<close>

definition linspace :: "real \<Rightarrow> real \<Rightarrow> nat \<Rightarrow> real list" where
  "linspace a b n = map (\<lambda>i. a + real i * ((b - a) / real (n - 1))) [0..<n]"

text \<open>
  \<open>_callback\<close> for a block of \<open>frames\<close> frames: the player afterwards and the block written
  to the device. After an underrun in mid-block a fade of at most 16 samples follows the
  played samples; an empty FIFO gives silence.
\<close>

definition player_callback :: "player \<Rightarrow> nat \<Rightarrow> player \<times> sample list" where
  "player_callback p frames =
     (let samples_needed = frames * channels p;
          r = callback_fill samples_needed (buffer p) [] (last_sample p);
          out = fst (snd r);
          filled = length out;
          p1 = p\<lparr>buffer := fst r, last_sample := snd (snd r)\<rparr>
      in if filled < samples_needed \<and> filled > 0
         then (let fade_samples = min 16 (samples_needed - filled);
                   fade = (if last_sample p1 \<noteq> 0
                           then linspace (last_sample p1 * (5 / 10)) 0 fade_samples
                           else replicate fade_samples 0)
               in (p1\<lparr>last_sample := 0\<rparr>,
                   out @ fade @ replicate (samples_needed - filled - fade_samples) 0))
         else if filled = 0 then (p1\<lparr>last_sample := 0\<rparr>, replicate samples_needed 0)
         else (p1, out))"

text \<open>The operations on a player, and a run of them.\<close>

datatype player_op = Enqueue frame | Callback nat | Stop

fun player_step :: "curve \<Rightarrow> player \<Rightarrow> player_op \<Rightarrow> player" where
  "player_step curve p (Enqueue pcm) = enqueue_float32 curve p pcm"
| "player_step curve p (Callback frames) = fst (player_callback p frames)"
| "player_step curve p Stop = player_stop p"

fun enqueue_all :: "curve \<Rightarrow> player \<Rightarrow> frame list \<Rightarrow> player" where
  "enqueue_all curve p [] = p"
| "enqueue_all curve p (f # fs) = enqueue_all curve (enqueue_float32 curve p f) fs"

section \<open>Python strings\<close>

text \<open>
  The code points for which \<open>str.isspace\<close> holds; \<open>str.strip()\<close> and the regular
  expression class \<open>\s\<close> (on \<open>str\<close> patterns) both use this set.
\<close>

definition py_isspace :: "nat \<Rightarrow> bool" where
  "py_isspace c \<longleftrightarrow>
     (9 \<le> c \<and> c \<le> 13) \<or> (28 \<le> c \<and> c \<le> 32) \<or> c = 133 \<or> c = 160 \<or> c = 5760 \<or>
     (8192 \<le> c \<and> c \<le> 8202) \<or> c = 8232 \<or> c = 8233 \<or> c = 8239 \<or> c = 8287 \<or> c = 12288"

definition py_strip :: "pystr \<Rightarrow> pystr" where
  "py_strip s = rev (dropWhile py_isspace (rev (dropWhile py_isspace s)))"

fun py_join :: "pystr \<Rightarrow> pystr list \<Rightarrow> pystr" where
  "py_join sep [] = []"
| "py_join sep [x] = x"
| "py_join sep (x # y # ys) = x @ sep @ py_join sep (y # ys)"

text \<open>\<open>needle in haystack\<close> on strings.\<close>

fun py_in :: "pystr \<Rightarrow> pystr \<Rightarrow> bool" where
  "py_in needle [] \<longleftrightarrow> needle = []"
| "py_in needle (c # cs) \<longleftrightarrow> take (length needle) (c # cs) = needle \<or> py_in needle cs"

text \<open>An ASCII literal as a Python string.\<close>

definition ascii :: "string \<Rightarrow> pystr" where
  "ascii s = map of_char s"

section \<open>PCM conversion\<close>

text \<open>One little-endian signed 16-bit integer from its two bytes.\<close>

definition int16_le :: "byte \<Rightarrow> byte \<Rightarrow> int" where
  "int16_le lo hi = sint (word_of_int (uint lo + 256 * uint hi) :: 16 word)"

fun int16_pairs :: "byte list \<Rightarrow> int list" where
  "int16_pairs (lo # hi # bs) = int16_le lo hi # int16_pairs bs"
| "int16_pairs bs = []"

datatype exn = ValueError | ConnectError | SendError | RecvError | ConfigError | AttributeError

text \<open>\<open>np.frombuffer(pcm_bytes, dtype=np.int16)\<close>: a buffer of odd size raises.\<close>

definition frombuffer_int16 :: "byte list \<Rightarrow> exn + int list" where
  "frombuffer_int16 bs = (if length bs mod 2 \<noteq> 0 then Inl ValueError else Inr (int16_pairs bs))"

definition pcm_to_float32 :: "byte list \<Rightarrow> frame" where
  "pcm_to_float32 pcm_bytes =
     (case frombuffer_int16 pcm_bytes of
        Inl e \<Rightarrow> []
      | Inr pcm_s16 \<Rightarrow>
          if pcm_s16 = [] then [] else map (\<lambda>k. real_of_int k / 32768) pcm_s16)"

section \<open>The send queue\<close>

text \<open>
  An \<open>asyncio.Queue\<close>: its items, and the items of the \<open>put()\<close> coroutines that wait
  because the queue was full, in arrival order. A \<open>get\<close> takes the head and lets the
  first waiting \<open>put\<close> complete. The coroutines that the capture thread schedules with
  \<open>run_coroutine_threadsafe\<close> run on the loop in the order they were scheduled.
\<close>

record send_queue =
  items :: "chunk option list"
  putters :: "chunk option list"
  maxsize :: nat

definition new_queue :: "nat \<Rightarrow> send_queue" where
  "new_queue n = \<lparr>items = [], putters = [], maxsize = n\<rparr>"

definition queue_full :: "send_queue \<Rightarrow> bool" where
  "queue_full q \<longleftrightarrow> maxsize q > 0 \<and> length (items q) \<ge> maxsize q"

definition queue_put :: "send_queue \<Rightarrow> chunk option \<Rightarrow> send_queue" where
  "queue_put q x =
     (if queue_full q then q\<lparr>putters := putters q @ [x]\<rparr> else q\<lparr>items := items q @ [x]\<rparr>)"

definition queue_get :: "send_queue \<Rightarrow> (chunk option \<times> send_queue) option" where
  "queue_get q =
     (case items q of
        [] \<Rightarrow> None
      | x # rest \<Rightarrow>
          (case putters q of
             [] \<Rightarrow> Some (x, q\<lparr>items := rest\<rparr>)
           | w # ws \<Rightarrow> Some (x, q\<lparr>items := rest @ [w], putters := ws\<rparr>)))"

section \<open>SimpleRealtimeTranslator\<close>

datatype task = Sender_task nat | Receiver_task nat | Heartbeat_task nat | Watchdog_task

datatype action =
    Player_enqueue frame
  | On_source_sentence pystr
  | On_translation_sentence pystr
  | Schedule_start_session
  | Ws_connect nat nat
  | Ws_send_start_session
  | Ws_send_chunk chunk
  | Ws_close
  | Sleep real
  | Warn warning

record translator =
  player :: player
  send_queue :: "send_queue option"
  ws_conn :: bool
  session_active :: bool
  session_id :: "pystr option"
  session_count :: nat
  reconnect_delay :: nat
  max_reconnect_delay :: nat
  reconnect_attempts :: nat
  max_queue_size :: nat
  active_tasks :: "task list"
  source_text_buffer :: "pystr list"
  translation_text_buffer :: "pystr list"
  on_source_sentence :: bool
  on_translation_sentence :: bool
  mic_prebuffer :: "chunk list"
  trace :: "action list"

text \<open>
  \<open>__init__\<close>. The two callbacks are modelled by whether they are callable; what the
  translator does to the outside (calls, sends, sleeps, warnings) is appended to \<open>trace\<close>.
\<close>

definition new_translator :: "bool \<Rightarrow> bool \<Rightarrow> translator" where
  "new_translator src_cb tr_cb =
     \<lparr>player = new_player, send_queue = None, ws_conn = False, session_active = False,
      session_id = None, session_count = 0, reconnect_delay = 1, max_reconnect_delay = 32,
      reconnect_attempts = 0, max_queue_size = 300, active_tasks = [],
      source_text_buffer = [], translation_text_buffer = [],
      on_source_sentence = src_cb, on_translation_sentence = tr_cb,
      mic_prebuffer = [], trace = []\<rparr>"

definition emit :: "action list \<Rightarrow> translator \<Rightarrow> translator" where
  "emit as t = t\<lparr>trace := trace t @ as\<rparr>"

text \<open>
  Emptying the send queue with \<open>get_nowait\<close> until it is empty: every removed item wakes
  one waiting \<open>put\<close>, which completes when the loop next runs.
\<close>

definition drain_queue :: "send_queue \<Rightarrow> send_queue" where
  "drain_queue q =
     q\<lparr>items := take (length (items q)) (putters q),
       putters := drop (length (items q)) (putters q)\<rparr>"

subsection \<open>The receiver task\<close>

datatype event =
    AudioMuted nat
  | SessionStarted
  | SessionFailed pystr
  | SessionCanceled pystr
  | SessionFinished
  | TTSSentenceStart int
  | TTSResponse "byte list"
  | TTSSentenceEnd
  | SourceSubtitleStart
  | SourceSubtitleResponse pystr
  | SourceSubtitleEnd
  | TranslationSubtitleStart
  | TranslationSubtitleResponse pystr
  | TranslationSubtitleEnd
  | OtherEvent
  | RecvFailure

record receiver_locals =
  current_seq :: "int option"
  current_data :: "byte list"
  sentence_count :: nat

definition receiver_init :: receiver_locals where
  "receiver_init = \<lparr>current_seq = None, current_data = [], sentence_count = 0\<rparr>"

datatype 'a loop = Continue 'a | Break 'a

text \<open>The reconnect bookkeeping of a \<open>SessionFailed\<close> or \<open>SessionCanceled\<close> message.\<close>

definition session_failed :: "translator \<Rightarrow> pystr \<Rightarrow> translator" where
  "session_failed t error_msg =
     (if py_in (ascii ''AudioSendSlow'') error_msg \<or> py_in (ascii ''audio not enough'') error_msg
      then
        (let t1 = (emit [Warn Audio_send_slow] t)\<lparr>session_active := False,
                    send_queue := map_option drain_queue (send_queue t)\<rparr>;
             t2 = t1\<lparr>reconnect_attempts := reconnect_attempts t1 + 1\<rparr>
         in if reconnect_attempts t2 \<le> 10
            then (let delay = min (reconnect_delay t2 * 2 ^ reconnect_attempts t2)
                                  (max_reconnect_delay t2)
                  in (emit [Warn (Reconnect_in delay (reconnect_attempts t2)), Sleep (real delay)] t2)
                       \<lparr>session_active := False\<rparr>)
            else t2)
      else t)"

definition receiver_event ::
  "curve \<Rightarrow> translator \<times> receiver_locals \<Rightarrow> event \<Rightarrow> (translator \<times> receiver_locals) loop" where
  "receiver_event curve st ev =
     (let t = fst st; l = snd st in
      case ev of
        RecvFailure \<Rightarrow> Break (t, l)
      | AudioMuted ms \<Rightarrow> Continue (t, l)
      | SessionFailed msg \<Rightarrow> Break (session_failed t msg, l)
      | SessionCanceled msg \<Rightarrow> Break (session_failed t msg, l)
      | SessionFinished \<Rightarrow> Break (t, l)
      | TTSSentenceStart seq \<Rightarrow> Continue (t, l\<lparr>current_seq := Some seq, current_data := []\<rparr>)
      | TTSResponse d \<Rightarrow>
          (if current_seq l \<noteq> None \<and> d \<noteq> []
           then Continue (t, l\<lparr>current_data := current_data l @ d\<rparr>)
           else Continue (t, l))
      | TTSSentenceEnd \<Rightarrow>
          (if current_seq l \<noteq> None \<and> current_data l \<noteq> []
           then (let pcm = pcm_to_float32 (current_data l);
                     st1 = (if pcm \<noteq> []
                            then ((emit [Player_enqueue pcm] t)
                                     \<lparr>player := enqueue_float32 curve (player t) pcm\<rparr>,
                                  l\<lparr>sentence_count := sentence_count l + 1\<rparr>)
                            else (t, l))
                 in Continue (fst st1, (snd st1)\<lparr>current_seq := None, current_data := []\<rparr>))
           else Continue (t, l))
      | SourceSubtitleStart \<Rightarrow> Continue (t\<lparr>source_text_buffer := []\<rparr>, l)
      | SourceSubtitleResponse text \<Rightarrow>
          (if text \<noteq> [] \<and> py_strip text \<noteq> []
           then Continue (t\<lparr>source_text_buffer := source_text_buffer t @ [py_strip text]\<rparr>, l)
           else Continue (t, l))
      | SourceSubtitleEnd \<Rightarrow>
          (if source_text_buffer t \<noteq> []
           then (let complete_source = py_join [] (source_text_buffer t);
                     t1 = (if on_source_sentence t
                           then emit [On_source_sentence complete_source] t else t)
                 in Continue (t1\<lparr>source_text_buffer := []\<rparr>, l))
           else Continue (t, l))
      | TranslationSubtitleStart \<Rightarrow> Continue (t\<lparr>translation_text_buffer := []\<rparr>, l)
      | TranslationSubtitleResponse text \<Rightarrow>
          (if text \<noteq> [] \<and> py_strip text \<noteq> []
           then Continue (t\<lparr>translation_text_buffer :=
                              translation_text_buffer t @ [py_strip text]\<rparr>, l)
           else Continue (t, l))
      | TranslationSubtitleEnd \<Rightarrow>
          (if translation_text_buffer t \<noteq> []
           then (let complete_translation = py_join [32] (translation_text_buffer t);
                     t1 = (if on_translation_sentence t
                           then emit [On_translation_sentence complete_translation] t else t)
                 in Continue (t1\<lparr>translation_text_buffer := []\<rparr>, l))
           else Continue (t, l))
      | _ \<Rightarrow> Continue (t, l))"

text \<open>The \<open>finally\<close> block of the receiver: close, cancel, empty the queue, reset.\<close>

definition receiver_cleanup :: "translator \<Rightarrow> translator" where
  "receiver_cleanup t =
     (let t1 = (if ws_conn t then emit [Ws_close] t else t)
      in t1\<lparr>active_tasks := [], ws_conn := False, session_active := False,
            session_id := None, send_queue := None\<rparr>)"

text \<open>
  The receive loop over the events the socket delivers. When the list ends the task is
  still waiting in \<open>recv\<close>; a terminal event or a failure leaves the loop through the
  cleanup.
\<close>

fun receiver_task ::
  "curve \<Rightarrow> translator \<times> receiver_locals \<Rightarrow> event list \<Rightarrow> translator \<times> receiver_locals" where
  "receiver_task curve st [] = st"
| "receiver_task curve st (ev # evs) =
     (case receiver_event curve st ev of
        Continue st' \<Rightarrow> receiver_task curve st' evs
      | Break st' \<Rightarrow> (receiver_cleanup (fst st'), snd st'))"

text \<open>
  A curve of ones, for running the model on concrete inputs.
\<close>

definition flat_curve :: curve where
  "flat_curve n = replicate n 1"

subsection \<open>Vocabulary for the receiver claims\<close>

text \<open>The events that end the receive loop: a terminal message or a failure.\<close>

fun terminal :: "event \<Rightarrow> bool" where
  "terminal (SessionFailed m) = True"
| "terminal (SessionCanceled m) = True"
| "terminal SessionFinished = True"
| "terminal RecvFailure = True"
| "terminal e = False"

text \<open>
  An event that may arrive between a \<open>TTSSentenceStart\<close> and its \<open>TTSSentenceEnd\<close>: any
  event but a fault and the two delimiters.
\<close>

fun within_sentence :: "event \<Rightarrow> bool" where
  "within_sentence (TTSSentenceStart s) = False"
| "within_sentence TTSSentenceEnd = False"
| "within_sentence e = (\<not> terminal e)"

text \<open>The concatenated payloads of the \<open>TTSResponse\<close> events.\<close>

fun tts_payload :: "event list \<Rightarrow> byte list" where
  "tts_payload [] = []"
| "tts_payload (TTSResponse d # es) = d @ tts_payload es"
| "tts_payload (e # es) = tts_payload es"

fun is_player_enqueue :: "action \<Rightarrow> bool" where
  "is_player_enqueue (Player_enqueue v) = True"
| "is_player_enqueue a = False"

text \<open>Likewise for a source and for a translation subtitle episode, with their fragments.\<close>

fun within_source_episode :: "event \<Rightarrow> bool" where
  "within_source_episode SourceSubtitleStart = False"
| "within_source_episode SourceSubtitleEnd = False"
| "within_source_episode e = (\<not> terminal e)"

fun within_translation_episode :: "event \<Rightarrow> bool" where
  "within_translation_episode TranslationSubtitleStart = False"
| "within_translation_episode TranslationSubtitleEnd = False"
| "within_translation_episode e = (\<not> terminal e)"

fun source_fragments :: "event list \<Rightarrow> pystr list" where
  "source_fragments [] = []"
| "source_fragments (SourceSubtitleResponse x # es) = x # source_fragments es"
| "source_fragments (e # es) = source_fragments es"

fun translation_fragments :: "event list \<Rightarrow> pystr list" where
  "translation_fragments [] = []"
| "translation_fragments (TranslationSubtitleResponse x # es) = x # translation_fragments es"
| "translation_fragments (e # es) = translation_fragments es"

text \<open>A fragment that is not empty and has no whitespace at either end.\<close>

definition clean_fragment :: "pystr \<Rightarrow> bool" where
  "clean_fragment f \<longleftrightarrow> f \<noteq> [] \<and> py_strip f = f"

text \<open>Empty or whitespace-only text.\<close>

definition blank :: "pystr \<Rightarrow> bool" where
  "blank s \<longleftrightarrow> list_all py_isspace s"

text \<open>What the receiver keeps of a list of fragments: each stripped, the empty ones dropped.\<close>

definition kept_fragments :: "pystr list \<Rightarrow> pystr list" where
  "kept_fragments frs = filter (\<lambda>s. s \<noteq> []) (map py_strip frs)"

fun is_source_callback :: "action \<Rightarrow> bool" where
  "is_source_callback (On_source_sentence s) = True"
| "is_source_callback a = False"

fun is_translation_callback :: "action \<Rightarrow> bool" where
  "is_translation_callback (On_translation_sentence s) = True"
| "is_translation_callback a = False"

fun nonblank_source_response :: "event \<Rightarrow> bool" where
  "nonblank_source_response (SourceSubtitleResponse x) = (\<not> blank x)"
| "nonblank_source_response e = False"

fun nonblank_translation_response :: "event \<Rightarrow> bool" where
  "nonblank_translation_response (TranslationSubtitleResponse x) = (\<not> blank x)"
| "nonblank_translation_response e = False"

fun loop_state :: "'a loop \<Rightarrow> 'a" where
  "loop_state (Continue s) = s"
| "loop_state (Break s) = s"

subsection \<open>The sender task\<close>

text \<open>
  Times are seconds. The source computes with floating-point seconds; the model uses real
  numbers, where \<open>0.08\<close> is \<open>8/100\<close>.
\<close>

definition sample_rate :: nat where
  "sample_rate = 16000"

text \<open>\<open>np.zeros(int(self.sample_rate * 0.08), dtype=np.int16).tobytes()\<close>\<close>

definition silence_chunk :: chunk where
  "silence_chunk = concat (replicate (sample_rate * 8 div 100) [0, 0])"

datatype get_outcome = Got "chunk option" | Get_timeout | Get_queue_full

record sender_locals =
  chunk_count :: nat
  next_send_time :: real

text \<open>
  What one iteration meets: when the queue is empty, the delay after which a \<open>put\<close>
  delivers an item (\<open>None\<close>: no item arrives); whether the socket send raises; and the two
  readings of \<open>time.time()\<close>, for \<open>wait_time\<close> and for the reset.
\<close>

record sender_env =
  next_put :: "(real \<times> chunk option) option"
  send_fails :: bool
  clock_wait :: real
  clock_reset :: real

definition sender_init :: "real \<Rightarrow> sender_locals" where
  "sender_init now = \<lparr>chunk_count = 0, next_send_time = now\<rparr>"

text \<open>
  \<open>asyncio.wait_for(self.send_queue.get(), timeout)\<close>: an item of the queue is returned
  at once; on an empty queue an item that arrives within the timeout is returned, and
  otherwise \<open>TimeoutError\<close> is raised. A \<open>get\<close> never raises \<open>QueueFull\<close>.
\<close>

definition wait_for_get :: "send_queue \<Rightarrow> real \<Rightarrow> sender_env \<Rightarrow> get_outcome \<times> send_queue" where
  "wait_for_get q timeout env =
     (case queue_get q of
        Some (x, q') \<Rightarrow> (Got x, q')
      | None \<Rightarrow>
          (case next_put env of
             None \<Rightarrow> (Get_timeout, q)
           | Some (d, x) \<Rightarrow> if d \<le> timeout then (Got x, q) else (Get_timeout, q)))"

text \<open>The pacing after a send.\<close>

definition pace :: "sender_locals \<Rightarrow> sender_env \<Rightarrow> sender_locals \<times> action list" where
  "pace l env =
     (let l1 = l\<lparr>chunk_count := chunk_count l + 1\<rparr>;
          l2 = l1\<lparr>next_send_time := next_send_time l1 + 8 / 100\<rparr>;
          wait_time = next_send_time l2 - clock_wait env
      in if wait_time > 0 then (l2, [Sleep wait_time])
         else if wait_time < - (5 / 10)
         then (l2\<lparr>next_send_time := clock_reset env\<rparr>, [Warn (Reset_time_base (- wait_time))])
         else (l2, []))"

text \<open>
  One iteration of the \<open>while self.session_active\<close> loop; \<open>Inl\<close> is a raised exception,
  with the queue as the iteration leaves it.
\<close>

definition sender_iteration ::
  "send_queue \<Rightarrow> sender_locals \<Rightarrow> sender_env \<Rightarrow>
     exn \<times> send_queue + send_queue \<times> sender_locals \<times> action list" where
  "sender_iteration q l env =
     (case wait_for_get q (1 / 100) env of
        (Get_queue_full, q1) \<Rightarrow> Inr (q1, l, [Warn Send_queue_full])
      | (outcome, q1) \<Rightarrow>
          (case (case outcome of Got x \<Rightarrow> x | _ \<Rightarrow> Some silence_chunk) of
             None \<Rightarrow> Inr (q1, l, [])
           | Some item \<Rightarrow>
               if send_fails env then Inl (SendError, q1)
               else (case pace l env of (l', as) \<Rightarrow> Inr (q1, l', Ws_send_chunk item # as))))"

text \<open>
  The task: the loop runs while \<open>session_active\<close>; any exception ends it with
  \<open>session_active = False\<close>, the queue staying installed without the item the iteration
  took. A missing queue makes \<open>self.send_queue.get\<close> raise.
\<close>

fun sender_task :: "translator \<Rightarrow> sender_locals \<Rightarrow> sender_env list \<Rightarrow> translator" where
  "sender_task t l [] = t"
| "sender_task t l (env # envs) =
     (if \<not> session_active t then t
      else (case send_queue t of
              None \<Rightarrow> t\<lparr>session_active := False\<rparr>
            | Some q \<Rightarrow>
                (case sender_iteration q l env of
                   Inl (e, q') \<Rightarrow> t\<lparr>send_queue := Some q', session_active := False\<rparr>
                 | Inr (q', l', as) \<Rightarrow>
                     sender_task ((emit as t)\<lparr>send_queue := Some q'\<rparr>) l' envs)))"

subsection \<open>Vocabulary for the pacing claim\<close>

fun sent_chunks :: "action list \<Rightarrow> chunk list" where
  "sent_chunks [] = []"
| "sent_chunks (Ws_send_chunk c # as) = c # sent_chunks as"
| "sent_chunks (a # as) = sent_chunks as"

fun slept :: "action list \<Rightarrow> real" where
  "slept [] = 0"
| "slept (Sleep d # as) = d + slept as"
| "slept (a # as) = slept as"

text \<open>
  The pacing rule in the spec's words: after a send \<open>next_send_time\<close> grows by 80 ms, the
  task sleeps \<open>max(0, next_send_time - now)\<close>, and when \<open>now - next_send_time\<close> exceeds
  500 ms the base becomes the current time.
\<close>

definition spec_sleep :: "sender_locals \<Rightarrow> sender_env \<Rightarrow> real" where
  "spec_sleep l env = max 0 (next_send_time l + 80 / 1000 - clock_wait env)"

definition spec_next_send_time :: "sender_locals \<Rightarrow> sender_env \<Rightarrow> real" where
  "spec_next_send_time l env =
     (if clock_wait env - (next_send_time l + 80 / 1000) > 500 / 1000 then clock_reset env
      else next_send_time l + 80 / 1000)"

text \<open>An iteration that sends exactly the chunk \<open>c\<close> and then paces by the rule.\<close>

definition sends_paced ::
  "sender_locals \<Rightarrow> sender_env \<Rightarrow> chunk \<Rightarrow>
     exn \<times> send_queue + send_queue \<times> sender_locals \<times> action list \<Rightarrow> bool" where
  "sends_paced l env c r =
     (case r of
        Inl e \<Rightarrow> False
      | Inr (q', l', as) \<Rightarrow>
          sent_chunks as = [c] \<and> slept as = spec_sleep l env \<and>
          next_send_time l' = spec_next_send_time l env \<and> chunk_count l' = chunk_count l + 1)"

subsection \<open>The capture callback\<close>

text \<open>\<open>append\<close> on a \<open>deque\<close> with \<open>maxlen\<close>: after appending, an overfull deque loses its head.\<close>

definition deque_append :: "nat \<Rightarrow> 'a list \<Rightarrow> 'a \<Rightarrow> 'a list" where
  "deque_append maxlen d x = (let d' = d @ [x] in if length d' > maxlen then tl d' else d')"

definition prebuffer_maxlen :: nat where
  "prebuffer_maxlen = 30"

text \<open>
  \<open>audio_callback\<close> from the point where the captured block has become \<open>data_bytes\<close>. The
  \<open>put\<close> coroutines it schedules act on the queue in scheduling order.
\<close>

definition audio_callback :: "translator \<Rightarrow> chunk \<Rightarrow> translator" where
  "audio_callback t data_bytes =
     (let t1 = (if \<not> session_active t then emit [Schedule_start_session] t else t)
      in case (session_active t1, send_queue t1) of
           (True, Some q) \<Rightarrow>
             (let q1 = foldl (\<lambda>q b. queue_put q (Some b)) q (mic_prebuffer t1)
              in t1\<lparr>mic_prebuffer := [], send_queue := Some (queue_put q1 (Some data_bytes))\<rparr>)
         | _ \<Rightarrow>
             t1\<lparr>mic_prebuffer := deque_append prebuffer_maxlen (mic_prebuffer t1) data_bytes\<rparr>)"

definition session_ready :: "translator \<Rightarrow> bool" where
  "session_ready t \<longleftrightarrow> session_active t \<and> send_queue t \<noteq> None"

subsection \<open>Opening a session\<close>

text \<open>
  What an attempt to open a session meets: whether the configuration loads, whether the
  dial made after \<open>n\<close> failed dials succeeds, the fresh session id, whether sending
  \<open>StartSession\<close> succeeds, the first frame received (\<open>RecvFailure\<close> when receiving or
  parsing raises), and which tasks have finished.
\<close>

record session_env =
  config_ok :: bool
  dial :: "nat \<Rightarrow> bool"
  uuid :: pystr
  start_send_ok :: bool
  first_response :: event
  task_done :: "task \<Rightarrow> bool"

definition max_connect_attempts :: nat where
  "max_connect_attempts = 3"

datatype connect_result = Connected | Connect_raised exn | Not_connected

text \<open>
  The dial loop of \<open>_start_session\<close>. Every dial is \<open>websockets.connect\<close> with
  \<open>open_timeout=20\<close> inside \<open>asyncio.wait_for\<close> with \<open>timeout=20\<close>.
\<close>

function connect_loop :: "(nat \<Rightarrow> bool) \<Rightarrow> nat \<Rightarrow> connect_result \<times> action list" where
  "connect_loop dl connect_attempts =
     (if connect_attempts < max_connect_attempts
      then (if dl connect_attempts then (Connected, [Ws_connect 20 20])
            else (let a = connect_attempts + 1
                  in if a \<ge> max_connect_attempts
                     then (Connect_raised ConnectError, [Ws_connect 20 20])
                     else (let retry_delay = min (2 ^ a) 8;
                               r = connect_loop dl a
                           in (fst r, [Ws_connect 20 20, Warn (Connect_failed a retry_delay),
                                       Sleep (real retry_delay)] @ snd r))))
      else (Not_connected, []))"
  by pat_completeness auto
termination
  by (relation "measure (\<lambda>(dl, n). max_connect_attempts - n)") auto

declare connect_loop.simps [simp del]

text \<open>
  The \<open>try\<close> block of \<open>_start_session\<close>: the state it leaves, and the exception that left it,
  if any.
\<close>

definition start_session_body :: "translator \<Rightarrow> session_env \<Rightarrow> translator \<times> exn option" where
  "start_session_body t env =
     (if \<not> config_ok env then (t, Some ConfigError)
      else
        (let t1 = t\<lparr>session_count := session_count t + 1\<rparr>;
             session_num = session_count t1;
             c = connect_loop (dial env) 0;
             t2 = emit (snd c) t1
         in case fst c of
              Connect_raised e \<Rightarrow> (t2, Some e)
            | r \<Rightarrow>
                (let t3 = (if r = Connected then t2\<lparr>ws_conn := True\<rparr> else t2)
                 in if \<not> ws_conn t3 then (t3, Some AttributeError)
                    else
                      (let t4 = t3\<lparr>session_id := Some (uuid env)\<rparr>
                       in if \<not> start_send_ok env then (t4, Some SendError)
                          else
                            (let t5 = emit [Ws_send_start_session] t4
                             in if first_response env = RecvFailure then (t5, Some RecvError)
                                else if first_response env \<noteq> SessionStarted
                                then ((emit [Ws_close] t5)\<lparr>ws_conn := False,
                                         session_active := False\<rparr>, None)
                                else (t5\<lparr>reconnect_attempts := 0,
                                         send_queue := Some (new_queue (max_queue_size t5)),
                                         active_tasks := active_tasks t5 @
                                           [Sender_task session_num, Receiver_task session_num,
                                            Heartbeat_task session_num]\<rparr>, None))))))"

text \<open>
  \<open>_start_session\<close> runs in two steps with awaits in between. First, under the lock, an
  active session makes it return at once (\<open>None\<close>); otherwise it raises
  \<open>session_active\<close>.
\<close>

definition session_claim :: "translator \<Rightarrow> translator option" where
  "session_claim t = (if session_active t then None else Some (t\<lparr>session_active := True\<rparr>))"

text \<open>
  Then the \<open>try\<close> block with its handler, which catches every exception: the second
  component, the exception the caller sees, is always \<open>None\<close>. The block awaits the dial,
  the send and the first frame, and installs the send queue only after that frame, with
  no await in between. Capture callbacks that run during those awaits see the flag raised
  and the queue that was installed before; the block neither reads what they change (the
  pre-buffer, that queue) nor changes what they read before it returns, so in the model
  they act on the state before \<open>session_open\<close>.
\<close>

definition session_open :: "translator \<Rightarrow> session_env \<Rightarrow> translator \<times> exn option" where
  "session_open t env =
     (case start_session_body t env of
        (t1, None) \<Rightarrow> (t1, None)
      | (t1, Some e) \<Rightarrow>
          (let t2 = t1\<lparr>session_active := False\<rparr>;
               t3 = (if ws_conn t2 then emit [Ws_close] t2 else t2)
           in (t3\<lparr>ws_conn := False\<rparr>, None)))"

text \<open>A call of \<open>_start_session\<close> during which no capture callback runs.\<close>

definition start_session :: "translator \<Rightarrow> session_env \<Rightarrow> translator \<times> exn option" where
  "start_session t env =
     (case session_claim t of None \<Rightarrow> (t, None) | Some t1 \<Rightarrow> session_open t1 env)"

text \<open>
  A call of \<open>_start_session\<close> while the chunks \<open>during\<close> are captured, one callback each,
  between the raising of the flag and the return of the call.
\<close>

definition open_with_captures :: "translator \<Rightarrow> chunk list \<Rightarrow> session_env \<Rightarrow> translator" where
  "open_with_captures t during env =
     (case session_claim t of
        None \<Rightarrow> t
      | Some t1 \<Rightarrow> fst (session_open (foldl audio_callback t1 during) env))"

subsection \<open>The watchdog task\<close>

record watchdog_locals =
  backoff :: nat
  consecutive_failures :: nat

definition watchdog_init :: watchdog_locals where
  "watchdog_init = \<lparr>backoff = 1, consecutive_failures = 0\<rparr>"

definition max_consecutive_failures :: nat where
  "max_consecutive_failures = 5"

text \<open>One iteration of the \<open>while self._running\<close> loop.\<close>

definition watchdog_iteration ::
  "translator \<Rightarrow> watchdog_locals \<Rightarrow> session_env \<Rightarrow> translator \<times> watchdog_locals" where
  "watchdog_iteration t w env =
     (if \<not> session_active t
      then
        (let t1 = emit [Sleep (real (backoff w))] t
         in if consecutive_failures w \<ge> max_consecutive_failures
            then (emit [Sleep 60] t1, w\<lparr>consecutive_failures := 0, backoff := 1\<rparr>)
            else (case start_session t1 env of
                    (t2, None) \<Rightarrow> (t2, w\<lparr>backoff := 1, consecutive_failures := 0\<rparr>)
                  | (t2, Some e) \<Rightarrow>
                      (let w1 = w\<lparr>consecutive_failures := consecutive_failures w + 1\<rparr>
                       in (emit [Warn (Watchdog_reconnect_failed (consecutive_failures w1))] t2,
                           w1\<lparr>backoff := min (backoff w1 * 2) 16\<rparr>))))
      else ((emit [Sleep 5] t)\<lparr>active_tasks := filter (\<lambda>k. \<not> task_done env k) (active_tasks t)\<rparr>,
            w))"

fun watchdog_task ::
  "translator \<Rightarrow> watchdog_locals \<Rightarrow> session_env list \<Rightarrow> translator \<times> watchdog_locals" where
  "watchdog_task t w [] = (t, w)"
| "watchdog_task t w (env # envs) =
     (case watchdog_iteration t w env of (t', w') \<Rightarrow> watchdog_task t' w' envs)"

text \<open>Environments for concrete runs: no dial succeeds, every dial succeeds, no task has finished.\<close>

definition never_connects :: "nat \<Rightarrow> bool" where
  "never_connects n = False"

definition always_connects :: "nat \<Rightarrow> bool" where
  "always_connects n = True"

definition no_task_done :: "task \<Rightarrow> bool" where
  "no_task_done k = False"

definition unreachable_service :: session_env where
  "unreachable_service =
     \<lparr>config_ok = True, dial = never_connects, uuid = [], start_send_ok = True,
      first_response = SessionStarted, task_done = no_task_done\<rparr>"

definition reachable_service :: session_env where
  "reachable_service =
     \<lparr>config_ok = True, dial = always_connects, uuid = ascii ''sid'', start_send_ok = True,
      first_response = SessionStarted, task_done = no_task_done\<rparr>"

text \<open>
  A first session that the service has failed with \<open>AudioSendSlow\<close>: the state in which
  the receiver sleeps before its cleanup, the flag lowered and the emptied queue still
  installed.
\<close>

definition slow_session :: translator where
  "slow_session =
     session_failed (fst (start_session (new_translator True True) reachable_service))
       (ascii ''AudioSendSlow'')"

text \<open>An active session whose send queue holds 300 chunks.\<close>

definition full_session :: translator where
  "full_session =
     (new_translator True True)\<lparr>session_active := True, ws_conn := True,
        send_queue := Some ((new_queue 300)\<lparr>items := Some [9, 9] # replicate 299 (Some [0, 0])\<rparr>)\<rparr>"

section \<open>SecretRedactFilter\<close>

text \<open>
  The pattern is
  \<open>(API_APP_KEY|API_ACCESS_KEY|API_RESOURCE_ID|X-Api-App-Key|X-Api-Access-Key|X-Api-Resource-Id)\s*[:=]\s*([^\s,;]+)\<close>
  with \<open>re.IGNORECASE\<close>.
\<close>

definition secret_keys :: "pystr list" where
  "secret_keys = map ascii [''API_APP_KEY'', ''API_ACCESS_KEY'', ''API_RESOURCE_ID'',
     ''X-Api-App-Key'', ''X-Api-Access-Key'', ''X-Api-Resource-Id'']"

text \<open>
  Case-insensitive matching of an ASCII pattern character: a subject character matches
  when both fold to the same character. Besides the ASCII capitals, four code points fold
  to ASCII letters: U+0130 and U+0131 to \<open>i\<close>, U+017F to \<open>s\<close>, U+212A to \<open>k\<close>.
\<close>

definition sre_fold :: "nat \<Rightarrow> nat" where
  "sre_fold c =
     (if 65 \<le> c \<and> c \<le> 90 then c + 32
      else if c = 304 \<or> c = 305 then 105
      else if c = 383 then 115
      else if c = 8490 then 107
      else c)"

text \<open>A literal at the head of the subject: the rest of the subject after it.\<close>

fun match_literal :: "pystr \<Rightarrow> pystr \<Rightarrow> pystr option" where
  "match_literal [] s = Some s"
| "match_literal (p # ps) [] = None"
| "match_literal (p # ps) (c # cs) =
     (if sre_fold c = sre_fold p then match_literal ps cs else None)"

text \<open>The class \<open>[^\s,;]\<close>.\<close>

definition value_char :: "nat \<Rightarrow> bool" where
  "value_char c \<longleftrightarrow> \<not> py_isspace c \<and> c \<noteq> 44 \<and> c \<noteq> 59"

text \<open>
  \<open>\s*[:=]\s*([^\s,;]+)\<close> at the head of the subject: the rest after the match. The
  character classes that follow each other are disjoint, so the greedy match is the only
  one.
\<close>

definition match_tail :: "pystr \<Rightarrow> pystr option" where
  "match_tail s =
     (case dropWhile py_isspace s of
        [] \<Rightarrow> None
      | c # s2 \<Rightarrow>
          if c = 58 \<or> c = 61
          then (let s3 = dropWhile py_isspace s2
                in if takeWhile value_char s3 = [] then None
                   else Some (dropWhile value_char s3))
          else None)"

text \<open>
  The whole pattern at the head of the subject, the alternatives tried in order: group 1
  and the rest after the match.
\<close>

fun match_at :: "pystr list \<Rightarrow> pystr \<Rightarrow> (pystr \<times> pystr) option" where
  "match_at [] s = None"
| "match_at (k # ks) s =
     (case match_literal k s of
        None \<Rightarrow> match_at ks s
      | Some r \<Rightarrow>
          (case match_tail r of
             None \<Rightarrow> match_at ks s
           | Some rest \<Rightarrow> Some (take (length k) s, rest)))"

text \<open>
  \<open>self._pattern.sub(repl, msg)\<close> with \<open>repl\<close> giving group 1 followed by
  \<open>=<REDACTED>\<close>: the leftmost matches, left to right, without overlap. A match is
  never empty, so the rest after it is shorter than the subject (lemma
  \<open>match_at_shorter\<close>); the test of the lengths only serves the termination proof.
\<close>

function redact :: "pystr \<Rightarrow> pystr" where
  "redact [] = []"
| "redact (c # cs) =
     (case match_at secret_keys (c # cs) of
        None \<Rightarrow> c # redact cs
      | Some (g, rest) \<Rightarrow>
          if length rest < length (c # cs) then g @ ascii ''=<REDACTED>'' @ redact rest
          else c # cs)"
  by pat_completeness auto
termination
  by (relation "measure length") auto

declare redact.simps [simp del]

text \<open>\<open>SecretRedactFilter.filter\<close>: the message the record carries afterwards.\<close>

definition secret_redact_filter :: "pystr \<Rightarrow> pystr" where
  "secret_redact_filter msg = (if msg \<noteq> [] then redact msg else msg)"

subsection \<open>Vocabulary for the redaction claim\<close>

text \<open>One of the six key names, in any letter case.\<close>

definition is_secret_key :: "pystr \<Rightarrow> bool" where
  "is_secret_key k \<longleftrightarrow> list_ex (\<lambda>k0. map sre_fold k = map sre_fold k0) secret_keys"

text \<open>No match of the pattern begins inside the prefix \<open>pre\<close> of the message \<open>pre @ rest\<close>.\<close>

fun unmatched_prefix :: "pystr \<Rightarrow> pystr \<Rightarrow> bool" where
  "unmatched_prefix [] rest \<longleftrightarrow> True"
| "unmatched_prefix (c # cs) rest \<longleftrightarrow>
     match_at secret_keys (c # cs @ rest) = None \<and> unmatched_prefix cs rest"

text \<open>
  A message with a key, optional whitespace, a separator, optional whitespace, a value
  and a remainder.
\<close>

definition keyed_message :: "pystr \<Rightarrow> pystr \<Rightarrow> pystr \<Rightarrow> nat \<Rightarrow> pystr \<Rightarrow> pystr \<Rightarrow> pystr \<Rightarrow> pystr" where
  "keyed_message pre k w1 sep w2 v post = pre @ k @ w1 @ [sep] @ w2 @ v @ post"

text \<open>A value the pattern takes whole: non-empty, of value characters, ended by \<open>post\<close>.\<close>

definition whole_value :: "pystr \<Rightarrow> pystr \<Rightarrow> bool" where
  "whole_value v post \<longleftrightarrow>
     v \<noteq> [] \<and> list_all value_char v \<and> (case post of [] \<Rightarrow> True | c # cs \<Rightarrow> \<not> value_char c)"

section \<open>Playback FIFO bound\<close>

lemma length_fade_tail: "length (fade_tail curve pcm) = length pcm"
  by (simp add: fade_tail_def Let_def)

lemma enqueue_float32_below:
  "length (buffer p) < 50 \<Longrightarrow>
     buffer (enqueue_float32 curve p pcm) = buffer p @ [fade_tail curve pcm] \<and>
     player_log (enqueue_float32 curve p pcm) = player_log p"
  by (simp add: enqueue_float32_def max_buffer_size_def Let_def)

lemma enqueue_float32_at_capacity:
  "length (buffer p) \<ge> 50 \<Longrightarrow>
     buffer (enqueue_float32 curve p pcm) = tl (buffer p) @ [fade_tail curve pcm] \<and>
     player_log (enqueue_float32 curve p pcm) =
       player_log p @ [Audio_buffer_full (length (hd (buffer p)))]"
  by (cases "buffer p") (simp_all add: enqueue_float32_def max_buffer_size_def Let_def)

lemma enqueue_float32_bounded:
  "length (buffer p) \<le> 50 \<Longrightarrow> length (buffer (enqueue_float32 curve p pcm)) \<le> 50"
proof (cases "length (buffer p) < 50")
  case True
  then show ?thesis using enqueue_float32_below [of p curve pcm] by simp
next
  case False
  assume "length (buffer p) \<le> 50"
  with False have "length (buffer p) = 50" by simp
  then show ?thesis using enqueue_float32_at_capacity [of p curve pcm] by simp
qed

lemma enqueue_all_bounded:
  "length (buffer p) \<le> 50 \<Longrightarrow> length (buffer (enqueue_all curve p fs)) \<le> 50"
  by (induction fs arbitrary: p) (simp_all add: enqueue_float32_bounded)

lemma callback_fill_shrinks: "length (fst (callback_fill n buf out lst)) \<le> length buf"
proof (induction n buf out lst rule: callback_fill.induct)
  case (1 n buf out lst)
  show ?case
  proof (cases buf)
    case Nil
    then show ?thesis by (simp add: callback_fill.simps)
  next
    case (Cons chunk rest)
    show ?thesis
    proof (cases "length out < n")
      case False
      with Cons show ?thesis by (simp add: callback_fill.simps)
    next
      case True
      let ?k = "min (length chunk) (n - length out)"
      show ?thesis
      proof (cases "?k < length chunk")
        case True
        with "1.IH"(1) [OF Cons \<open>length out < n\<close> refl refl refl True] Cons \<open>length out < n\<close>
        show ?thesis
          by (subst callback_fill.simps) (auto simp: Let_def min_def split: if_splits)
      next
        case False
        with "1.IH"(2) [OF Cons \<open>length out < n\<close> refl refl refl False] Cons \<open>length out < n\<close>
        show ?thesis
          by (subst callback_fill.simps) (auto simp: Let_def min_def split: if_splits)
      qed
    qed
  qed
qed

lemma player_callback_shrinks:
  "length (buffer (fst (player_callback p frames))) \<le> length (buffer p)"
  using callback_fill_shrinks [of "frames * channels p" "buffer p" "[]" "last_sample p"]
  by (simp add: player_callback_def Let_def)

lemma player_step_bounded:
  "length (buffer p) \<le> 50 \<Longrightarrow> length (buffer (player_step curve p op)) \<le> 50"
proof (cases op)
  case (Enqueue pcm)
  assume "length (buffer p) \<le> 50"
  with Enqueue show ?thesis by (simp add: enqueue_float32_bounded)
next
  case (Callback frames)
  assume "length (buffer p) \<le> 50"
  with Callback show ?thesis
    using player_callback_shrinks [of p frames] by simp
next
  case Stop
  then show ?thesis by (simp add: player_stop_def)
qed

lemma player_run_bounded:
  "length (buffer p) \<le> 50 \<Longrightarrow> length (buffer (foldl (player_step curve) p ops)) \<le> 50"
  by (induction ops arbitrary: p) (simp_all add: player_step_bounded)

text \<open>
  Claim C7. After every enqueue on the playback FIFO its length is at most 50 frames:
  from the empty FIFO of a new player any sequence of enqueues, and any run of enqueues,
  playback callbacks and stops, keeps the bound; one enqueue keeps it; and an enqueue that
  finds 50 frames removes exactly the oldest one, logs the warning with the dropped
  frame's sample count, and appends the new frame.
\<close>

theorem playback_fifo_bounded:
  "length (buffer (enqueue_all curve new_player fs)) \<le> 50 \<and>
   length (buffer (foldl (player_step curve) new_player ops)) \<le> 50 \<and>
   (length (buffer p) \<le> 50 \<longrightarrow> length (buffer (enqueue_float32 curve p pcm)) \<le> 50) \<and>
   (length (buffer p) = 50 \<longrightarrow>
      buffer (enqueue_float32 curve p pcm) = tl (buffer p) @ [fade_tail curve pcm] \<and>
      player_log (enqueue_float32 curve p pcm) =
        player_log p @ [Audio_buffer_full (length (hd (buffer p)))]) \<and>
   (length (buffer p) < 50 \<longrightarrow>
      buffer (enqueue_float32 curve p pcm) = buffer p @ [fade_tail curve pcm] \<and>
      player_log (enqueue_float32 curve p pcm) = player_log p)"
proof -
  have "length (buffer (enqueue_all curve new_player fs)) \<le> 50"
    by (rule enqueue_all_bounded) (simp add: new_player_def)
  moreover have "length (buffer (foldl (player_step curve) new_player ops)) \<le> 50"
    by (rule player_run_bounded) (simp add: new_player_def)
  ultimately show ?thesis
    using enqueue_float32_bounded [of p curve pcm] enqueue_float32_at_capacity [of p curve pcm]
      enqueue_float32_below [of p curve pcm]
    by simp
qed

theorem playback_fifo_bounded_witness:
  "length (buffer (new_player\<lparr>buffer := [1/8] # replicate 49 [0]\<rparr>)) = 50 \<and>
   buffer (enqueue_float32 flat_curve (new_player\<lparr>buffer := [1/8] # replicate 49 [0]\<rparr>) [1/4]) =
     replicate 49 [0] @ [[1/4]] \<and>
   player_log (enqueue_float32 flat_curve (new_player\<lparr>buffer := [1/8] # replicate 49 [0]\<rparr>) [1/4]) =
     [Audio_buffer_full 1] \<and>
   length (buffer (enqueue_float32 flat_curve (new_player\<lparr>buffer := [1/8] # replicate 49 [0]\<rparr>)
     [1/4])) \<le> 50 \<and>
   buffer (enqueue_float32 flat_curve new_player [1/4]) = [[1/4]] \<and>
   buffer (foldl (player_step flat_curve) new_player [Enqueue [1/8, 1/4, 1/2], Callback 2]) =
     [[1/2]]"
  using playback_fifo_bounded [where curve = flat_curve and fs = "[]"
      and ops = "[Enqueue [1/8, 1/4, 1/2], Callback 2]"
      and p = "new_player\<lparr>buffer := [1/8] # replicate 49 [0]\<rparr>" and pcm = "[1/4]"]
    playback_fifo_bounded [where curve = flat_curve and fs = "[]" and ops = "[]"
      and p = new_player and pcm = "[1/4]"]
  by (simp add: new_player_def fade_tail_def enqueue_float32_def max_buffer_size_def
      player_callback_def callback_fill.simps Let_def)

text \<open>
  A callback that finds one sample for a block of four plays it and fades from half its
  value to zero.
\<close>

lemma player_callback_underrun:
  "player_callback (new_player\<lparr>buffer := [[1/2]]\<rparr>) 4 =
     (new_player\<lparr>buffer := [], last_sample := 0\<rparr>, [1/2, 1/4, 1/8, 0])"
  by (simp add: player_callback_def callback_fill.simps new_player_def linspace_def Let_def
      upt_rec)

section \<open>TTS sentence reassembly\<close>

lemma int16_le_arith:
  "int16_le lo hi = (let u = uint lo + 256 * uint hi in if u < 32768 then u else u - 65536)"
proof -
  have b: "0 \<le> uint lo" "uint lo < 256" "0 \<le> uint hi" "uint hi < 256"
    using uint_bounded [of lo] uint_bounded [of hi] by simp_all
  then have r: "0 \<le> uint lo + 256 * uint hi" "uint lo + 256 * uint hi < 65536" by simp_all
  define x where "x = uint lo + 256 * uint hi"
  have xm: "x mod 65536 = x"
    using r unfolding x_def [symmetric] by simp
  have "sint (word_of_int x :: 16 word) = (if x < 32768 then x else x - 65536)"
  proof (cases "x < 32768")
    case True
    with r have "(x + 32768) mod 65536 = x + 32768"
      unfolding x_def [symmetric] by simp
    with True xm show ?thesis
      by (simp add: sint_uint uint_word_of_int signed_take_bit_eq_take_bit_shift take_bit_eq_mod)
  next
    case False
    with r have "(x + 32768) mod 65536 = x - 32768"
      unfolding x_def [symmetric] by (simp add: mod_pos_geq)
    with False xm show ?thesis
      by (simp add: sint_uint uint_word_of_int signed_take_bit_eq_take_bit_shift take_bit_eq_mod)
  qed
  then show ?thesis
    by (simp add: int16_le_def Let_def x_def)
qed

lemma int16_pairs_length: "even (length bs) \<Longrightarrow> length (int16_pairs bs) = length bs div 2"
  by (induction bs rule: int16_pairs.induct) simp_all

lemma int16_pairs_nth:
  "even (length bs) \<Longrightarrow> i < length bs div 2 \<Longrightarrow>
     int16_pairs bs ! i = int16_le (bs ! (2 * i)) (bs ! (2 * i + 1))"
proof (induction bs arbitrary: i rule: int16_pairs.induct)
  case (1 lo hi bs)
  then show ?case by (cases i) simp_all
qed simp_all

lemma pcm_to_float32_even:
  "even (length bs) \<Longrightarrow> pcm_to_float32 bs = map (\<lambda>k. real_of_int k / 32768) (int16_pairs bs)"
  by (simp add: pcm_to_float32_def frombuffer_int16_def)

lemma pcm_to_float32_odd: "odd (length bs) \<Longrightarrow> pcm_to_float32 bs = []"
  by (simp add: pcm_to_float32_def frombuffer_int16_def odd_iff_mod_2_eq_one)

lemma receiver_event_within_sentence:
  assumes "within_sentence e" and "current_seq l = Some s"
  shows "\<exists>t' l'. receiver_event curve (t, l) e = Continue (t', l') \<and>
           current_seq l' = Some s \<and>
           current_data l' = current_data l @ tts_payload [e] \<and>
           player t' = player t \<and>
           filter is_player_enqueue (trace t') = filter is_player_enqueue (trace t)"
  using assms by (cases e) (simp_all add: receiver_event_def emit_def Let_def)

lemma receiver_task_within_sentence:
  "\<forall>e \<in> set es. within_sentence e \<Longrightarrow> current_seq l = Some s \<Longrightarrow>
   \<exists>t' l'. receiver_task curve (t, l) (es @ rest) = receiver_task curve (t', l') rest \<and>
           current_seq l' = Some s \<and>
           current_data l' = current_data l @ tts_payload es \<and>
           player t' = player t \<and>
           filter is_player_enqueue (trace t') = filter is_player_enqueue (trace t)"
proof (induction es arbitrary: t l)
  case Nil
  then show ?case by auto
next
  case (Cons e es)
  from Cons.prems have "within_sentence e" by simp
  from receiver_event_within_sentence [OF this Cons.prems(2), of curve t]
  obtain t1 l1 where step: "receiver_event curve (t, l) e = Continue (t1, l1)"
    "current_seq l1 = Some s" "current_data l1 = current_data l @ tts_payload [e]"
    "player t1 = player t"
    "filter is_player_enqueue (trace t1) = filter is_player_enqueue (trace t)"
    by blast
  from Cons.prems have "\<forall>e \<in> set es. within_sentence e" by simp
  from Cons.IH [OF this step(2), of t1]
  obtain t' l' where run: "receiver_task curve (t1, l1) (es @ rest) = receiver_task curve (t', l') rest"
    "current_seq l' = Some s" "current_data l' = current_data l1 @ tts_payload es"
    "player t' = player t1"
    "filter is_player_enqueue (trace t') = filter is_player_enqueue (trace t1)"
    by blast
  have pl: "tts_payload (e # es) = tts_payload [e] @ tts_payload es"
    by (cases e) simp_all
  show ?case
    using step run pl by (intro exI [of _ t'] exI [of _ l']) simp
qed

lemma tts_end_effect:
  assumes "current_seq l = Some s"
  shows "filter is_player_enqueue (trace (fst (receiver_task curve (t, l) [TTSSentenceEnd]))) =
           filter is_player_enqueue (trace t) @
             (if current_data l \<noteq> [] \<and> pcm_to_float32 (current_data l) \<noteq> []
              then [Player_enqueue (pcm_to_float32 (current_data l))] else []) \<and>
         player (fst (receiver_task curve (t, l) [TTSSentenceEnd])) =
           (if current_data l \<noteq> [] \<and> pcm_to_float32 (current_data l) \<noteq> []
            then enqueue_float32 curve (player t) (pcm_to_float32 (current_data l))
            else player t)"
  using assms by (simp add: receiver_event_def emit_def Let_def)

lemma pcm_to_float32_nonempty:
  "pcm_to_float32 bs \<noteq> [] \<longleftrightarrow> bs \<noteq> [] \<and> even (length bs)"
proof (cases "even (length bs)")
  case True
  then have "length (pcm_to_float32 bs) = length bs div 2"
    by (simp add: pcm_to_float32_even int16_pairs_length)
  moreover have "bs \<noteq> [] \<Longrightarrow> length bs \<ge> 2"
    using True by (cases bs rule: int16_pairs.cases) simp_all
  ultimately show ?thesis using True
    by (cases "bs = []") (auto simp: pcm_to_float32_def frombuffer_int16_def)
next
  case False
  then show ?thesis by (simp add: pcm_to_float32_odd)
qed

text \<open>
  Claim C1, amended. Take a \<open>TTSSentenceStart\<close>, then any events other than a fault, a
  \<open>TTSSentenceStart\<close> or a \<open>TTSSentenceEnd\<close>, among them \<open>TTSResponse\<close> events whose
  payloads concatenate to \<open>B\<close> bytes, then a \<open>TTSSentenceEnd\<close>. When \<open>B\<close> is positive and
  even, the receiver makes exactly one playback enqueue for the sentence, through
  \<open>enqueue_float32\<close>: the vector has \<open>B div 2\<close> samples and sample \<open>i\<close> is the \<open>i\<close>-th
  little-endian signed 16-bit integer of the payload divided by 32768. When \<open>B\<close> is zero
  or odd, nothing is enqueued and the player is unchanged.
\<close>

theorem tts_sentence_enqueue:
  assumes "\<forall>e \<in> set es. within_sentence e"
  shows "filter is_player_enqueue (trace (fst (receiver_task curve (t, l)
             (TTSSentenceStart seq # es @ [TTSSentenceEnd])))) =
           filter is_player_enqueue (trace t) @
             (if tts_payload es \<noteq> [] \<and> even (length (tts_payload es))
              then [Player_enqueue (pcm_to_float32 (tts_payload es))] else []) \<and>
         player (fst (receiver_task curve (t, l)
             (TTSSentenceStart seq # es @ [TTSSentenceEnd]))) =
           (if tts_payload es \<noteq> [] \<and> even (length (tts_payload es))
            then enqueue_float32 curve (player t) (pcm_to_float32 (tts_payload es))
            else player t) \<and>
         (even (length (tts_payload es)) \<longrightarrow>
            length (pcm_to_float32 (tts_payload es)) = length (tts_payload es) div 2 \<and>
            (\<forall>i < length (tts_payload es) div 2.
               pcm_to_float32 (tts_payload es) ! i =
                 real_of_int (int16_le (tts_payload es ! (2 * i)) (tts_payload es ! (2 * i + 1)))
                   / 32768))"
proof -
  let ?B = "tts_payload es"
  let ?l0 = "l\<lparr>current_seq := Some seq, current_data := []\<rparr>"
  have start: "receiver_task curve (t, l) (TTSSentenceStart seq # es @ [TTSSentenceEnd]) =
      receiver_task curve (t, ?l0) (es @ [TTSSentenceEnd])"
    by (simp add: receiver_event_def Let_def)
  from receiver_task_within_sentence [OF assms, of ?l0 seq curve t "[TTSSentenceEnd]"]
  obtain t' l' where run:
    "receiver_task curve (t, ?l0) (es @ [TTSSentenceEnd]) = receiver_task curve (t', l') [TTSSentenceEnd]"
    "current_seq l' = Some seq" "current_data l' = ?B" "player t' = player t"
    "filter is_player_enqueue (trace t') = filter is_player_enqueue (trace t)"
    by auto
  have cond: "(current_data l' \<noteq> [] \<and> pcm_to_float32 (current_data l') \<noteq> []) \<longleftrightarrow>
      (?B \<noteq> [] \<and> even (length ?B))"
    using run(3) pcm_to_float32_nonempty [of ?B] by auto
  have samples: "even (length ?B) \<longrightarrow>
      length (pcm_to_float32 ?B) = length ?B div 2 \<and>
      (\<forall>i < length ?B div 2.
         pcm_to_float32 ?B ! i =
           real_of_int (int16_le (?B ! (2 * i)) (?B ! (2 * i + 1))) / 32768)"
    by (simp add: pcm_to_float32_even int16_pairs_length int16_pairs_nth)
  show ?thesis
    unfolding start run(1)
    using tts_end_effect [OF run(2), of curve t'] cond run(3-5) samples
    by simp
qed

theorem tts_sentence_enqueue_witness:
  "trace (fst (receiver_task flat_curve (new_translator True True, receiver_init)
            [TTSSentenceStart 7, TTSResponse [0x00, 0x10], AudioMuted 5, SourceSubtitleStart,
             TTSResponse [0x00, 0x20], TTSSentenceEnd])) = [Player_enqueue [1 / 8, 1 / 4]] \<and>
   buffer (player (fst (receiver_task flat_curve (new_translator True True, receiver_init)
            [TTSSentenceStart 7, TTSResponse [0x00, 0x10], AudioMuted 5, SourceSubtitleStart,
             TTSResponse [0x00, 0x20], TTSSentenceEnd]))) = [[1 / 8, 1 / 4]]"
  using tts_sentence_enqueue [where
      es = "[TTSResponse [0x00, 0x10], AudioMuted 5, SourceSubtitleStart, TTSResponse [0x00, 0x20]]"
      and curve = flat_curve and t = "new_translator True True" and l = receiver_init and seq = 7]
  by (simp add: receiver_event_def receiver_init_def emit_def Let_def
      new_translator_def new_player_def pcm_to_float32_def frombuffer_int16_def
      int16_le_def enqueue_float32_def fade_tail_def max_buffer_size_def)

theorem tts_sentence_enqueue_counterexample:
  "trace (fst (receiver_task flat_curve (new_translator True True, receiver_init)
            [TTSSentenceStart 7, TTSResponse [0x00, 0x10, 0x00], TTSSentenceEnd])) = [] \<and>
   trace (fst (receiver_task flat_curve (new_translator True True, receiver_init)
            [TTSSentenceStart 7, TTSSentenceEnd])) = []"
  by (simp add: receiver_event_def new_translator_def receiver_init_def pcm_to_float32_def
      frombuffer_int16_def Let_def)

section \<open>Subtitle assembly\<close>

lemma py_strip_Nil [simp]: "py_strip [] = []"
  by (simp add: py_strip_def)

lemma py_strip_blank: "py_strip s = [] \<longleftrightarrow> blank s"
proof
  assume "py_strip s = []"
  then have all: "\<forall>x \<in> set (dropWhile py_isspace s). py_isspace x"
    by (simp add: py_strip_def dropWhile_eq_Nil_conv)
  have "dropWhile py_isspace s = []"
  proof (rule ccontr)
    assume ne: "dropWhile py_isspace s \<noteq> []"
    then have "\<not> py_isspace (hd (dropWhile py_isspace s))"
      by (rule hd_dropWhile)
    moreover have "hd (dropWhile py_isspace s) \<in> set (dropWhile py_isspace s)"
      using ne by simp
    ultimately show False using all by blast
  qed
  then show "blank s"
    by (simp add: blank_def dropWhile_eq_Nil_conv list_all_iff)
next
  assume "blank s"
  then have "dropWhile py_isspace s = []"
    by (simp add: blank_def dropWhile_eq_Nil_conv list_all_iff)
  then show "py_strip s = []"
    unfolding py_strip_def by (simp only: rev.simps dropWhile.simps)
qed

lemma py_join_empty_sep: "py_join [] xs = concat xs"
  by (induction xs rule: induct_list012) simp_all

lemma kept_fragments_append:
  "kept_fragments (xs @ ys) = kept_fragments xs @ kept_fragments ys"
  by (simp add: kept_fragments_def)

lemma receiver_event_within_source_episode:
  assumes "within_source_episode e"
  shows "\<exists>t' l'. receiver_event curve (t, l) e = Continue (t', l') \<and>
           source_text_buffer t' = source_text_buffer t @ kept_fragments (source_fragments [e]) \<and>
           on_source_sentence t' = on_source_sentence t \<and>
           filter is_source_callback (trace t') = filter is_source_callback (trace t)"
proof (cases e)
  case (SourceSubtitleResponse x)
  then show ?thesis
    by (cases "py_strip x = []")
       (auto simp: receiver_event_def emit_def Let_def kept_fragments_def)
qed (use assms in \<open>simp_all add: receiver_event_def emit_def Let_def kept_fragments_def\<close>)

lemma receiver_task_within_source_episode:
  "\<forall>e \<in> set es. within_source_episode e \<Longrightarrow>
   \<exists>t' l'. receiver_task curve (t, l) (es @ rest) = receiver_task curve (t', l') rest \<and>
           source_text_buffer t' = source_text_buffer t @ kept_fragments (source_fragments es) \<and>
           on_source_sentence t' = on_source_sentence t \<and>
           filter is_source_callback (trace t') = filter is_source_callback (trace t)"
proof (induction es arbitrary: t l)
  case Nil
  then show ?case by (auto simp: kept_fragments_def)
next
  case (Cons e es)
  from Cons.prems have "within_source_episode e" by simp
  from receiver_event_within_source_episode [OF this, of curve t l]
  obtain t1 l1 where step: "receiver_event curve (t, l) e = Continue (t1, l1)"
    "source_text_buffer t1 = source_text_buffer t @ kept_fragments (source_fragments [e])"
    "on_source_sentence t1 = on_source_sentence t"
    "filter is_source_callback (trace t1) = filter is_source_callback (trace t)"
    by blast
  from Cons.prems have "\<forall>e \<in> set es. within_source_episode e" by simp
  from Cons.IH [OF this, of t1 l1]
  obtain t' l' where run: "receiver_task curve (t1, l1) (es @ rest) = receiver_task curve (t', l') rest"
    "source_text_buffer t' = source_text_buffer t1 @ kept_fragments (source_fragments es)"
    "on_source_sentence t' = on_source_sentence t1"
    "filter is_source_callback (trace t') = filter is_source_callback (trace t1)"
    by blast
  have fr: "source_fragments (e # es) = source_fragments [e] @ source_fragments es"
    by (cases e) simp_all
  show ?case
    using step run by (intro exI [of _ t'] exI [of _ l']) (simp add: fr kept_fragments_append)
qed

lemma source_end_effect:
  "filter is_source_callback (trace (fst (receiver_task curve (t, l) [SourceSubtitleEnd]))) =
     filter is_source_callback (trace t) @
       (if source_text_buffer t \<noteq> [] \<and> on_source_sentence t
        then [On_source_sentence (concat (source_text_buffer t))] else [])"
  by (simp add: receiver_event_def emit_def Let_def py_join_empty_sep)

lemma source_episode:
  assumes "\<forall>e \<in> set es. within_source_episode e"
  shows "filter is_source_callback (trace (fst (receiver_task curve (t, l)
      (SourceSubtitleStart # es @ [SourceSubtitleEnd])))) =
    filter is_source_callback (trace t) @
      (if kept_fragments (source_fragments es) \<noteq> [] \<and> on_source_sentence t
       then [On_source_sentence (concat (kept_fragments (source_fragments es)))] else [])"
proof -
  let ?t0 = "t\<lparr>source_text_buffer := []\<rparr>"
  have start: "receiver_task curve (t, l) (SourceSubtitleStart # es @ [SourceSubtitleEnd]) =
      receiver_task curve (?t0, l) (es @ [SourceSubtitleEnd])"
    by (simp add: receiver_event_def Let_def)
  from receiver_task_within_source_episode [OF assms, of curve ?t0 l "[SourceSubtitleEnd]"]
  obtain t' l' where run:
    "receiver_task curve (?t0, l) (es @ [SourceSubtitleEnd]) =
       receiver_task curve (t', l') [SourceSubtitleEnd]"
    "source_text_buffer t' = kept_fragments (source_fragments es)"
    "on_source_sentence t' = on_source_sentence t"
    "filter is_source_callback (trace t') = filter is_source_callback (trace t)"
    by auto
  show ?thesis
    unfolding start run(1) source_end_effect using run(2-4) by simp
qed

lemma receiver_event_within_translation_episode:
  assumes "within_translation_episode e"
  shows "\<exists>t' l'. receiver_event curve (t, l) e = Continue (t', l') \<and>
           translation_text_buffer t' = translation_text_buffer t @ kept_fragments (translation_fragments [e]) \<and>
           on_translation_sentence t' = on_translation_sentence t \<and>
           filter is_translation_callback (trace t') = filter is_translation_callback (trace t)"
proof (cases e)
  case (TranslationSubtitleResponse x)
  then show ?thesis
    by (cases "py_strip x = []")
       (auto simp: receiver_event_def emit_def Let_def kept_fragments_def)
qed (use assms in \<open>simp_all add: receiver_event_def emit_def Let_def kept_fragments_def\<close>)

lemma receiver_task_within_translation_episode:
  "\<forall>e \<in> set es. within_translation_episode e \<Longrightarrow>
   \<exists>t' l'. receiver_task curve (t, l) (es @ rest) = receiver_task curve (t', l') rest \<and>
           translation_text_buffer t' = translation_text_buffer t @ kept_fragments (translation_fragments es) \<and>
           on_translation_sentence t' = on_translation_sentence t \<and>
           filter is_translation_callback (trace t') = filter is_translation_callback (trace t)"
proof (induction es arbitrary: t l)
  case Nil
  then show ?case by (auto simp: kept_fragments_def)
next
  case (Cons e es)
  from Cons.prems have "within_translation_episode e" by simp
  from receiver_event_within_translation_episode [OF this, of curve t l]
  obtain t1 l1 where step: "receiver_event curve (t, l) e = Continue (t1, l1)"
    "translation_text_buffer t1 = translation_text_buffer t @ kept_fragments (translation_fragments [e])"
    "on_translation_sentence t1 = on_translation_sentence t"
    "filter is_translation_callback (trace t1) = filter is_translation_callback (trace t)"
    by blast
  from Cons.prems have "\<forall>e \<in> set es. within_translation_episode e" by simp
  from Cons.IH [OF this, of t1 l1]
  obtain t' l' where run: "receiver_task curve (t1, l1) (es @ rest) = receiver_task curve (t', l') rest"
    "translation_text_buffer t' = translation_text_buffer t1 @ kept_fragments (translation_fragments es)"
    "on_translation_sentence t' = on_translation_sentence t1"
    "filter is_translation_callback (trace t') = filter is_translation_callback (trace t1)"
    by blast
  have fr: "translation_fragments (e # es) = translation_fragments [e] @ translation_fragments es"
    by (cases e) simp_all
  show ?case
    using step run by (intro exI [of _ t'] exI [of _ l']) (simp add: fr kept_fragments_append)
qed

lemma translation_end_effect:
  "filter is_translation_callback (trace (fst (receiver_task curve (t, l) [TranslationSubtitleEnd]))) =
     filter is_translation_callback (trace t) @
       (if translation_text_buffer t \<noteq> [] \<and> on_translation_sentence t
        then [On_translation_sentence (py_join [32] (translation_text_buffer t))] else [])"
  by (simp add: receiver_event_def emit_def Let_def)

lemma translation_episode:
  assumes "\<forall>e \<in> set es. within_translation_episode e"
  shows "filter is_translation_callback (trace (fst (receiver_task curve (t, l)
      (TranslationSubtitleStart # es @ [TranslationSubtitleEnd])))) =
    filter is_translation_callback (trace t) @
      (if kept_fragments (translation_fragments es) \<noteq> [] \<and> on_translation_sentence t
       then [On_translation_sentence (py_join [32] (kept_fragments (translation_fragments es)))] else [])"
proof -
  let ?t0 = "t\<lparr>translation_text_buffer := []\<rparr>"
  have start: "receiver_task curve (t, l) (TranslationSubtitleStart # es @ [TranslationSubtitleEnd]) =
      receiver_task curve (?t0, l) (es @ [TranslationSubtitleEnd])"
    by (simp add: receiver_event_def Let_def)
  from receiver_task_within_translation_episode [OF assms, of curve ?t0 l "[TranslationSubtitleEnd]"]
  obtain t' l' where run:
    "receiver_task curve (?t0, l) (es @ [TranslationSubtitleEnd]) =
       receiver_task curve (t', l') [TranslationSubtitleEnd]"
    "translation_text_buffer t' = kept_fragments (translation_fragments es)"
    "on_translation_sentence t' = on_translation_sentence t"
    "filter is_translation_callback (trace t') = filter is_translation_callback (trace t)"
    by auto
  show ?thesis
    unfolding start run(1) translation_end_effect using run(2-4) by simp
qed

lemma kept_fragments_clean:
  "\<forall>f \<in> set frs. clean_fragment f \<Longrightarrow> kept_fragments frs = frs"
  by (induction frs) (simp_all add: kept_fragments_def clean_fragment_def)

text \<open>
  Claim C2, amended. Take a subtitle episode: a \<open>SourceSubtitleStart\<close>, then any events
  other than a fault or a source delimiter, then a \<open>SourceSubtitleEnd\<close>. If its
  \<open>SourceSubtitleResponse\<close> fragments are each non-empty and free of leading and trailing
  whitespace (at least one fragment), the episode makes exactly one call of a callable
  \<open>on_source_sentence\<close>, with the concatenation of the fragments; a translation episode
  likewise makes exactly one call of a callable \<open>on_translation_sentence\<close>, with the
  fragments joined by single spaces. For three fragments these are \<open>a + b + c\<close> and
  \<open>a + ' ' + b + ' ' + c\<close>. In general the receiver strips every fragment and drops the
  blank ones before joining (lemmas \<open>source_episode\<close> and \<open>translation_episode\<close>).
\<close>

theorem subtitle_join:
  assumes "frs \<noteq> []" and "\<forall>f \<in> set frs. clean_fragment f"
  shows "((\<forall>e \<in> set es. within_source_episode e) \<and> source_fragments es = frs \<and>
          on_source_sentence t \<longrightarrow>
            filter is_source_callback (trace (fst (receiver_task curve (t, l)
               (SourceSubtitleStart # es @ [SourceSubtitleEnd])))) =
            filter is_source_callback (trace t) @ [On_source_sentence (concat frs)]) \<and>
         ((\<forall>e \<in> set es. within_translation_episode e) \<and> translation_fragments es = frs \<and>
          on_translation_sentence t \<longrightarrow>
            filter is_translation_callback (trace (fst (receiver_task curve (t, l)
               (TranslationSubtitleStart # es @ [TranslationSubtitleEnd])))) =
            filter is_translation_callback (trace t) @
              [On_translation_sentence (py_join [32] frs)]) \<and>
         (\<forall>a b c. frs = [a, b, c] \<longrightarrow>
            concat frs = a @ b @ c \<and> py_join [32] frs = a @ [32] @ b @ [32] @ c)"
proof (intro conjI impI)
  assume h: "(\<forall>e \<in> set es. within_source_episode e) \<and> source_fragments es = frs \<and>
    on_source_sentence t"
  then have "kept_fragments (source_fragments es) = frs"
    using assms(2) by (simp add: kept_fragments_clean)
  with h assms(1) source_episode [of es curve t l]
  show "filter is_source_callback (trace (fst (receiver_task curve (t, l)
      (SourceSubtitleStart # es @ [SourceSubtitleEnd])))) =
    filter is_source_callback (trace t) @ [On_source_sentence (concat frs)]"
    by simp
next
  assume h: "(\<forall>e \<in> set es. within_translation_episode e) \<and> translation_fragments es = frs \<and>
    on_translation_sentence t"
  then have "kept_fragments (translation_fragments es) = frs"
    using assms(2) by (simp add: kept_fragments_clean)
  with h assms(1) translation_episode [of es curve t l]
  show "filter is_translation_callback (trace (fst (receiver_task curve (t, l)
      (TranslationSubtitleStart # es @ [TranslationSubtitleEnd])))) =
    filter is_translation_callback (trace t) @ [On_translation_sentence (py_join [32] frs)]"
    by simp
next
  show "\<forall>a b c. frs = [a, b, c] \<longrightarrow>
      concat frs = a @ b @ c \<and> py_join [32] frs = a @ [32] @ b @ [32] @ c"
    by simp
qed

theorem subtitle_join_witness:
  "trace (fst (receiver_task flat_curve (new_translator True True, receiver_init)
      (SourceSubtitleStart #
       [SourceSubtitleResponse [20320, 22909], AudioMuted 5, SourceSubtitleResponse [19990],
        TranslationSubtitleStart, TTSSentenceStart 7, SourceSubtitleResponse [30028]] @
       [SourceSubtitleEnd]))) = [On_source_sentence [20320, 22909, 19990, 30028]] \<and>
   trace (fst (receiver_task flat_curve (new_translator True True, receiver_init)
      (TranslationSubtitleStart #
       [TranslationSubtitleResponse (ascii ''Hello''), SourceSubtitleStart,
        TranslationSubtitleResponse (ascii ''big''), TTSSentenceEnd,
        TranslationSubtitleResponse (ascii ''world'')] @
       [TranslationSubtitleEnd]))) = [On_translation_sentence (ascii ''Hello big world'')]"
  using subtitle_join [where frs = "[[20320, 22909], [19990], [30028]]" and curve = flat_curve
      and es = "[SourceSubtitleResponse [20320, 22909], AudioMuted 5,
                 SourceSubtitleResponse [19990], TranslationSubtitleStart, TTSSentenceStart 7,
                 SourceSubtitleResponse [30028]]"
      and t = "new_translator True True" and l = receiver_init]
    subtitle_join [where frs = "[ascii ''Hello'', ascii ''big'', ascii ''world'']"
      and es = "[TranslationSubtitleResponse (ascii ''Hello''), SourceSubtitleStart,
                 TranslationSubtitleResponse (ascii ''big''), TTSSentenceEnd,
                 TranslationSubtitleResponse (ascii ''world'')]"
      and curve = flat_curve and t = "new_translator True True" and l = receiver_init]
  by (simp add: receiver_event_def receiver_init_def emit_def Let_def new_translator_def
      ascii_def py_strip_def py_isspace_def clean_fragment_def)

theorem subtitle_join_counterexample:
  "trace (fst (receiver_task flat_curve (new_translator True True, receiver_init)
      [SourceSubtitleStart, SourceSubtitleResponse (ascii ''a ''),
       SourceSubtitleResponse (ascii ''b''), SourceSubtitleResponse (ascii ''c''),
       SourceSubtitleEnd])) = [On_source_sentence (ascii ''abc'')] \<and>
   ascii ''a '' @ ascii ''b'' @ ascii ''c'' \<noteq> ascii ''abc'' \<and>
   trace (fst (receiver_task flat_curve (new_translator True True, receiver_init)
      [TranslationSubtitleStart, TranslationSubtitleResponse (ascii ''a''),
       TranslationSubtitleResponse (ascii '' ''), TranslationSubtitleResponse (ascii ''c''),
       TranslationSubtitleEnd])) = [On_translation_sentence (ascii ''a c'')] \<and>
   ascii ''a'' @ ascii '' '' @ ascii '' '' @ ascii '' '' @ ascii ''c'' \<noteq> ascii ''a c''"
  by (simp add: receiver_event_def new_translator_def receiver_init_def emit_def Let_def
      ascii_def py_strip_def py_isspace_def)

section \<open>Blank subtitle episodes\<close>

lemma session_failed_callbacks:
  "source_text_buffer (session_failed t m) = source_text_buffer t \<and>
   translation_text_buffer (session_failed t m) = translation_text_buffer t \<and>
   filter is_source_callback (trace (session_failed t m)) = filter is_source_callback (trace t) \<and>
   filter is_translation_callback (trace (session_failed t m)) =
     filter is_translation_callback (trace t)"
  by (simp add: session_failed_def emit_def Let_def)

lemma receiver_cleanup_callbacks:
  "filter is_source_callback (trace (receiver_cleanup t)) = filter is_source_callback (trace t) \<and>
   filter is_translation_callback (trace (receiver_cleanup t)) =
     filter is_translation_callback (trace t)"
  by (simp add: receiver_cleanup_def emit_def Let_def)

lemma receiver_event_no_source_callback:
  assumes "source_text_buffer t = []" and "\<not> nonblank_source_response e"
  shows "source_text_buffer (fst (loop_state (receiver_event curve (t, l) e))) = [] \<and>
         filter is_source_callback (trace (fst (loop_state (receiver_event curve (t, l) e)))) =
           filter is_source_callback (trace t)"
  using assms
  by (cases e)
     (simp_all add: receiver_event_def Let_def emit_def session_failed_callbacks
        py_strip_blank)

lemma receiver_task_no_source_callback:
  "source_text_buffer t = [] \<Longrightarrow> \<forall>e \<in> set es. \<not> nonblank_source_response e \<Longrightarrow>
   filter is_source_callback (trace (fst (receiver_task curve (t, l) es))) =
     filter is_source_callback (trace t)"
proof (induction es arbitrary: t l)
  case Nil
  then show ?case by simp
next
  case (Cons e es)
  have step: "source_text_buffer (fst (loop_state (receiver_event curve (t, l) e))) = [] \<and>
      filter is_source_callback (trace (fst (loop_state (receiver_event curve (t, l) e)))) =
        filter is_source_callback (trace t)"
    using Cons.prems by (intro receiver_event_no_source_callback) simp_all
  show ?case
  proof (cases "receiver_event curve (t, l) e")
    case (Continue st)
    obtain t' l' where st: "st = (t', l')" by (cases st)
    with Continue step Cons.prems Cons.IH [of t' l'] show ?thesis by simp
  next
    case (Break st)
    with step show ?thesis by (simp add: receiver_cleanup_callbacks)
  qed
qed


lemma receiver_event_no_translation_callback:
  assumes "translation_text_buffer t = []" and "\<not> nonblank_translation_response e"
  shows "translation_text_buffer (fst (loop_state (receiver_event curve (t, l) e))) = [] \<and>
         filter is_translation_callback (trace (fst (loop_state (receiver_event curve (t, l) e)))) =
           filter is_translation_callback (trace t)"
  using assms
  by (cases e)
     (simp_all add: receiver_event_def Let_def emit_def session_failed_callbacks
        py_strip_blank)

lemma receiver_task_no_translation_callback:
  "translation_text_buffer t = [] \<Longrightarrow> \<forall>e \<in> set es. \<not> nonblank_translation_response e \<Longrightarrow>
   filter is_translation_callback (trace (fst (receiver_task curve (t, l) es))) =
     filter is_translation_callback (trace t)"
proof (induction es arbitrary: t l)
  case Nil
  then show ?case by simp
next
  case (Cons e es)
  have step: "translation_text_buffer (fst (loop_state (receiver_event curve (t, l) e))) = [] \<and>
      filter is_translation_callback (trace (fst (loop_state (receiver_event curve (t, l) e)))) =
        filter is_translation_callback (trace t)"
    using Cons.prems by (intro receiver_event_no_translation_callback) simp_all
  show ?case
  proof (cases "receiver_event curve (t, l) e")
    case (Continue st)
    obtain t' l' where st: "st = (t', l')" by (cases st)
    with Continue step Cons.prems Cons.IH [of t' l'] show ?thesis by simp
  next
    case (Break st)
    with step show ?thesis by (simp add: receiver_cleanup_callbacks)
  qed
qed


text \<open>
  Claim C10. If every \<open>SourceSubtitleResponse\<close> between a \<open>SourceSubtitleStart\<close> and the
  following \<open>SourceSubtitleEnd\<close> carries empty or whitespace-only text (or there is none),
  whatever other events arrive in between, the episode adds no \<open>on_source_sentence\<close> call;
  likewise for translation episodes and \<open>on_translation_sentence\<close>.
\<close>

theorem blank_episode_no_callback:
  "((\<forall>e \<in> set es. \<not> nonblank_source_response e) \<longrightarrow>
      filter is_source_callback (trace (fst (receiver_task curve (t, l)
          (SourceSubtitleStart # es @ [SourceSubtitleEnd])))) =
      filter is_source_callback (trace t)) \<and>
   ((\<forall>e \<in> set es. \<not> nonblank_translation_response e) \<longrightarrow>
      filter is_translation_callback (trace (fst (receiver_task curve (t, l)
          (TranslationSubtitleStart # es @ [TranslationSubtitleEnd])))) =
      filter is_translation_callback (trace t))"
proof (intro conjI impI)
  assume a: "\<forall>e \<in> set es. \<not> nonblank_source_response e"
  have "receiver_task curve (t, l) (SourceSubtitleStart # es @ [SourceSubtitleEnd]) =
      receiver_task curve (t\<lparr>source_text_buffer := []\<rparr>, l) (es @ [SourceSubtitleEnd])"
    by (simp add: receiver_event_def Let_def)
  then show "filter is_source_callback (trace (fst (receiver_task curve (t, l)
          (SourceSubtitleStart # es @ [SourceSubtitleEnd])))) =
      filter is_source_callback (trace t)"
    using a receiver_task_no_source_callback [of "t\<lparr>source_text_buffer := []\<rparr>"
        "es @ [SourceSubtitleEnd]" curve l]
    by simp
next
  assume a: "\<forall>e \<in> set es. \<not> nonblank_translation_response e"
  have "receiver_task curve (t, l) (TranslationSubtitleStart # es @ [TranslationSubtitleEnd]) =
      receiver_task curve (t\<lparr>translation_text_buffer := []\<rparr>, l)
        (es @ [TranslationSubtitleEnd])"
    by (simp add: receiver_event_def Let_def)
  then show "filter is_translation_callback (trace (fst (receiver_task curve (t, l)
          (TranslationSubtitleStart # es @ [TranslationSubtitleEnd])))) =
      filter is_translation_callback (trace t)"
    using a receiver_task_no_translation_callback [of "t\<lparr>translation_text_buffer := []\<rparr>"
        "es @ [TranslationSubtitleEnd]" curve l]
    by simp
qed

theorem blank_episode_no_callback_witness:
  "trace (fst (receiver_task flat_curve
      ((new_translator True True)\<lparr>source_text_buffer := [ascii ''old'']\<rparr>, receiver_init)
      (SourceSubtitleStart #
       [SourceSubtitleResponse (ascii ''  ''), SourceSubtitleResponse [],
        TranslationSubtitleResponse [9, 32]] @ [SourceSubtitleEnd]))) = [] \<and>
   trace (fst (receiver_task flat_curve
      ((new_translator True True)\<lparr>translation_text_buffer := [ascii ''old'']\<rparr>, receiver_init)
      (TranslationSubtitleStart #
       [SourceSubtitleResponse (ascii ''  ''), SourceSubtitleResponse [],
        TranslationSubtitleResponse [9, 32]] @ [TranslationSubtitleEnd]))) = []"
  using blank_episode_no_callback [where
      es = "[SourceSubtitleResponse (ascii ''  ''), SourceSubtitleResponse [],
             TranslationSubtitleResponse [9, 32]]" and curve = flat_curve
      and t = "(new_translator True True)\<lparr>source_text_buffer := [ascii ''old'']\<rparr>"
      and l = receiver_init]
  by (simp add: receiver_event_def new_translator_def receiver_init_def emit_def Let_def
      ascii_def py_strip_def py_isspace_def blank_def)

section \<open>The paced sender\<close>

lemma concat_replicate_pair: "concat (replicate n [x, x]) = replicate (2 * n) x"
  by (induction n) simp_all

lemma silence_chunk_zeros: "silence_chunk = replicate 2560 0"
  by (simp add: silence_chunk_def sample_rate_def concat_replicate_pair)

lemma pace_by_rule:
  "pace l env = (l', as) \<Longrightarrow>
     slept as = spec_sleep l env \<and> sent_chunks as = [] \<and>
     next_send_time l' = spec_next_send_time l env \<and> chunk_count l' = chunk_count l + 1"
  by (auto simp: pace_def Let_def spec_sleep_def spec_next_send_time_def split: if_splits)

lemma sender_iteration_item:
  assumes "\<not> send_fails env" and "wait_for_get q (1 / 100) env = (Got (Some c), q1)"
  shows "sends_paced l env c (sender_iteration q l env)"
proof -
  obtain l' as where p: "pace l env = (l', as)" by (cases "pace l env")
  from pace_by_rule [OF p] assms p show ?thesis
    by (simp add: sender_iteration_def sends_paced_def)
qed

lemma sender_iteration_timeout:
  assumes "\<not> send_fails env" and "wait_for_get q (1 / 100) env = (Get_timeout, q1)"
  shows "sends_paced l env silence_chunk (sender_iteration q l env)"
proof -
  obtain l' as where p: "pace l env = (l', as)" by (cases "pace l env")
  from pace_by_rule [OF p] assms p show ?thesis
    by (simp add: sender_iteration_def sends_paced_def)
qed

text \<open>
  Claim C3. In an iteration of the paced sender whose send succeeds: a chunk that the send
  queue yields within 10 ms (it holds one, or one arrives in time) is the chunk sent;
  otherwise the 2560 zero bytes of 1280 silent samples are sent; after the send
  \<open>next_send_time\<close> has grown by 80 ms, the task has slept \<open>max(0, next_send_time - now)\<close>,
  and when \<open>now - next_send_time\<close> exceeds 500 ms \<open>next_send_time\<close> is the current time.
\<close>

theorem paced_sender:
  assumes "\<not> send_fails env"
  shows "(\<forall>c rest. items q = Some c # rest \<longrightarrow>
            sends_paced l env c (sender_iteration q l env)) \<and>
         (\<forall>c d. items q = [] \<and> next_put env = Some (d, Some c) \<and> d \<le> 10 / 1000 \<longrightarrow>
            sends_paced l env c (sender_iteration q l env)) \<and>
         (items q = [] \<and> (case next_put env of None \<Rightarrow> True | Some (d, x) \<Rightarrow> d > 10 / 1000) \<longrightarrow>
            sends_paced l env (replicate (2 * 1280) 0) (sender_iteration q l env))"
proof (intro conjI allI impI)
  fix c rest
  assume "items q = Some c # rest"
  then have "\<exists>q1. wait_for_get q (1 / 100) env = (Got (Some c), q1)"
    by (simp add: wait_for_get_def queue_get_def split: list.splits)
  then show "sends_paced l env c (sender_iteration q l env)"
    using sender_iteration_item [OF assms] by blast
next
  fix c d
  assume "items q = [] \<and> next_put env = Some (d, Some c) \<and> d \<le> 10 / 1000"
  then have "wait_for_get q (1 / 100) env = (Got (Some c), q)"
    by (simp add: wait_for_get_def queue_get_def)
  then show "sends_paced l env c (sender_iteration q l env)"
    using sender_iteration_item [OF assms] by blast
next
  assume "items q = [] \<and> (case next_put env of None \<Rightarrow> True | Some (d, x) \<Rightarrow> d > 10 / 1000)"
  then have "wait_for_get q (1 / 100) env = (Get_timeout, q)"
    by (auto simp: wait_for_get_def queue_get_def split: option.splits)
  then show "sends_paced l env (replicate (2 * 1280) 0) (sender_iteration q l env)"
    using sender_iteration_timeout [OF assms] by (simp add: silence_chunk_zeros)
qed

theorem paced_sender_witness:
  "sender_iteration ((new_queue 300)\<lparr>items := [Some [1, 2], Some [3, 4]]\<rparr>) (sender_init 10)
      \<lparr>next_put = None, send_fails = False, clock_wait = 10 + 5 / 100, clock_reset = 10 + 6 / 100\<rparr> =
     Inr ((new_queue 300)\<lparr>items := [Some [3, 4]]\<rparr>,
          \<lparr>chunk_count = 1, next_send_time = 10 + 8 / 100\<rparr>,
          [Ws_send_chunk [1, 2], Sleep (3 / 100)]) \<and>
   sender_iteration (new_queue 300) (sender_init 10)
      \<lparr>next_put = Some (5 / 1000, Some [7, 8]), send_fails = False, clock_wait = 11,
       clock_reset = 11 + 1 / 1000\<rparr> =
     Inr (new_queue 300, \<lparr>chunk_count = 1, next_send_time = 11 + 1 / 1000\<rparr>,
          [Ws_send_chunk [7, 8], Warn (Reset_time_base (92 / 100))]) \<and>
   sender_iteration (new_queue 300) (sender_init 10)
      \<lparr>next_put = Some (50 / 1000, Some [7, 8]), send_fails = False, clock_wait = 10 + 2 / 10,
       clock_reset = 10 + 2 / 10\<rparr> =
     Inr (new_queue 300, \<lparr>chunk_count = 1, next_send_time = 10 + 8 / 100\<rparr>,
          [Ws_send_chunk (replicate 2560 0)])"
  using paced_sender [where q = "(new_queue 300)\<lparr>items := [Some [1, 2], Some [3, 4]]\<rparr>"
      and l = "sender_init 10"
      and env = "\<lparr>next_put = None, send_fails = False, clock_wait = 10 + 5 / 100,
                   clock_reset = 10 + 6 / 100\<rparr>"]
    paced_sender [where q = "new_queue 300" and l = "sender_init 10"
      and env = "\<lparr>next_put = Some (5 / 1000, Some [7, 8]), send_fails = False, clock_wait = 11,
                   clock_reset = 11 + 1 / 1000\<rparr>"]
    paced_sender [where q = "new_queue 300" and l = "sender_init 10"
      and env = "\<lparr>next_put = Some (50 / 1000, Some [7, 8]), send_fails = False,
                   clock_wait = 10 + 2 / 10, clock_reset = 10 + 2 / 10\<rparr>"]
  by (simp add: sender_iteration_def wait_for_get_def queue_get_def new_queue_def sender_init_def
      pace_def Let_def silence_chunk_zeros)

section \<open>A full send queue\<close>

lemma wait_for_get_never_queue_full: "fst (wait_for_get q timeout env) \<noteq> Get_queue_full"
  by (simp add: wait_for_get_def split: option.splits prod.splits)

lemma sender_iteration_never_warns_full:
  "sender_iteration q l env = Inr (q', l', as) \<Longrightarrow> Warn Send_queue_full \<notin> set as"
  using wait_for_get_never_queue_full [of q "1 / 100" env]
  by (auto simp: sender_iteration_def pace_def Let_def
      split: prod.splits get_outcome.splits option.splits if_splits)

text \<open>
  Claim C4, at a full send queue. With 300 chunks queued in an active session, a newly
  captured chunk is not skipped and no warning is logged: its \<open>put\<close> waits, and the next
  \<open>get\<close> moves it into the queue. The capture callback itself returns without waiting.
\<close>

theorem full_queue_chunk_not_skipped:
  "send_queue (audio_callback full_session [1, 2]) =
     Some ((new_queue 300)\<lparr>items := Some [9, 9] # replicate 299 (Some [0, 0]),
                            putters := [Some [1, 2]]\<rparr>) \<and>
   trace (audio_callback full_session [1, 2]) = [] \<and>
   queue_get ((new_queue 300)\<lparr>items := Some [9, 9] # replicate 299 (Some [0, 0]),
                               putters := [Some [1, 2]]\<rparr>) =
     Some (Some [9, 9],
           (new_queue 300)\<lparr>items := replicate 299 (Some [0, 0]) @ [Some [1, 2]], putters := []\<rparr>)"
  by (simp add: audio_callback_def full_session_def new_translator_def new_queue_def
      queue_put_def queue_full_def queue_get_def Let_def)

section \<open>Session open and the watchdog\<close>

lemma session_open_never_raises: "snd (session_open t env) = None"
  by (simp add: session_open_def Let_def split: prod.splits option.splits)

lemma start_session_never_raises: "snd (start_session t env) = None"
  by (simp add: start_session_def session_open_never_raises split: option.splits)

lemma connect_loop_unreachable:
  "connect_loop never_connects 0 =
     (Connect_raised ConnectError,
      [Ws_connect 20 20, Warn (Connect_failed 1 2), Sleep 2,
       Ws_connect 20 20, Warn (Connect_failed 2 4), Sleep 4,
       Ws_connect 20 20])"
  by (simp add: connect_loop.simps never_connects_def max_connect_attempts_def Let_def)


lemma watchdog_iteration_counters:
  "consecutive_failures w < 5 \<Longrightarrow> \<not> session_active t \<Longrightarrow>
     snd (watchdog_iteration t w env) = w\<lparr>backoff := 1, consecutive_failures := 0\<rparr>"
  using start_session_never_raises [of "emit [Sleep (real (backoff w))] t" env]
  by (auto simp: watchdog_iteration_def max_consecutive_failures_def Let_def
      split: prod.splits option.splits)

lemma watchdog_iteration_zero:
  "consecutive_failures w = 0 \<Longrightarrow> consecutive_failures (snd (watchdog_iteration t w env)) = 0"
  using start_session_never_raises [of "emit [Sleep (real (backoff w))] t" env]
  by (auto simp: watchdog_iteration_def max_consecutive_failures_def Let_def
      split: prod.splits option.splits)

lemma watchdog_task_zero:
  "consecutive_failures w = 0 \<Longrightarrow> consecutive_failures (snd (watchdog_task t w envs)) = 0"
proof (induction envs arbitrary: t w)
  case Nil
  then show ?case by simp
next
  case (Cons env envs)
  obtain t' w' where r: "watchdog_iteration t w env = (t', w')"
    by (cases "watchdog_iteration t w env")
  with watchdog_iteration_zero [OF Cons.prems, of t env] have "consecutive_failures w' = 0"
    by simp
  with Cons.IH [of w' t'] r show ?case by simp
qed

text \<open>
  Claim C6, at a failing attempt. When every dial fails, the watchdog's attempt ends with
  no session, yet \<open>consecutive_failures\<close> stays 0 and \<open>backoff\<close> stays 1:
  \<open>_start_session\<close> has caught the error itself.
\<close>

theorem watchdog_failed_attempt:
  "watchdog_iteration (new_translator True True) watchdog_init unreachable_service =
     ((new_translator True True)\<lparr>session_count := 1,
         trace := [Sleep 1, Ws_connect 20 20, Warn (Connect_failed 1 2), Sleep 2,
                   Ws_connect 20 20, Warn (Connect_failed 2 4), Sleep 4, Ws_connect 20 20]\<rparr>,
      \<lparr>backoff = 1, consecutive_failures = 0\<rparr>)"
  by (simp add: watchdog_iteration_def watchdog_init_def start_session_def session_claim_def session_open_def start_session_body_def
      unreachable_service_def new_translator_def emit_def connect_loop_unreachable
      max_consecutive_failures_def Let_def)

text \<open>
  Claim C8, when every dial fails. Each dial uses the 20-second timeouts; there are three
  dials with delays of 2 and 4 seconds between them, the third failure is raised, and
  \<open>_start_session\<close> returns without an error to its caller.
\<close>

theorem dial_retry_unreachable:
  "connect_loop never_connects 0 =
     (Connect_raised ConnectError,
      [Ws_connect 20 20, Warn (Connect_failed 1 2), Sleep 2,
       Ws_connect 20 20, Warn (Connect_failed 2 4), Sleep 4,
       Ws_connect 20 20]) \<and>
   snd (start_session (new_translator True True) unreachable_service) = None \<and>
   session_active (fst (start_session (new_translator True True) unreachable_service)) = False"
  by (simp add: start_session_def session_claim_def session_open_def start_session_body_def
      unreachable_service_def new_translator_def emit_def connect_loop_unreachable Let_def)

section \<open>The pre-buffer\<close>

lemma deque_append_drop:
  "deque_append n (drop (length xs - n) xs) x = drop (length (xs @ [x]) - n) (xs @ [x])"
proof (cases "length xs < n")
  case True
  then show ?thesis by (simp add: deque_append_def Let_def)
next
  case False
  then have n: "n \<le> length xs" by simp
  show ?thesis
  proof (cases "n = 0")
    case True
    then show ?thesis by (simp add: deque_append_def Let_def)
  next
    case False
    with n have ne: "drop (length xs - n) xs \<noteq> []" by simp
    have "length (drop (length xs - n) xs @ [x]) > n" using n by simp
    then have "deque_append n (drop (length xs - n) xs) x = tl (drop (length xs - n) xs @ [x])"
      by (simp add: deque_append_def Let_def)
    also have "\<dots> = tl (drop (length xs - n) xs) @ [x]"
      using ne by simp
    also have "\<dots> = drop (Suc (length xs - n)) xs @ [x]"
      by (simp add: drop_Suc drop_tl)
    also have "\<dots> = drop (length (xs @ [x]) - n) (xs @ [x])"
      using n False by (simp add: Suc_diff_le)
    finally show ?thesis .
  qed
qed

lemma start_session_body_fields:
  "mic_prebuffer (fst (start_session_body t env)) = mic_prebuffer t \<and>
   max_queue_size (fst (start_session_body t env)) = max_queue_size t"
  by (simp add: start_session_body_def emit_def Let_def split: connect_result.splits)

lemma start_session_body_ok:
  "snd (start_session_body t env) = None \<Longrightarrow> session_active (fst (start_session_body t env)) \<Longrightarrow>
     send_queue (fst (start_session_body t env)) = Some (new_queue (max_queue_size t))"
  by (simp add: start_session_body_def emit_def Let_def split: connect_result.splits if_splits)


lemma audio_callback_not_ready:
  "\<not> session_ready t \<Longrightarrow>
     mic_prebuffer (audio_callback t c) = deque_append 30 (mic_prebuffer t) c \<and>
     session_active (audio_callback t c) = session_active t \<and>
     send_queue (audio_callback t c) = send_queue t \<and>
     max_queue_size (audio_callback t c) = max_queue_size t"
  by (cases "send_queue t")
     (simp_all add: audio_callback_def session_ready_def emit_def prebuffer_maxlen_def Let_def)


lemma capture_before_open:
  "\<not> session_ready t \<Longrightarrow> mic_prebuffer t = drop (length xs - 30) xs \<Longrightarrow>
     mic_prebuffer (foldl audio_callback t cs) = drop (length (xs @ cs) - 30) (xs @ cs) \<and>
     session_active (foldl audio_callback t cs) = session_active t \<and>
     send_queue (foldl audio_callback t cs) = send_queue t \<and>
     max_queue_size (foldl audio_callback t cs) = max_queue_size t"
proof (induction cs arbitrary: t xs)
  case Nil
  then show ?case by simp
next
  case (Cons c cs)
  let ?t = "audio_callback t c"
  have step: "mic_prebuffer ?t = drop (length (xs @ [c]) - 30) (xs @ [c])"
    "session_active ?t = session_active t" "send_queue ?t = send_queue t"
    "max_queue_size ?t = max_queue_size t"
    using audio_callback_not_ready [OF Cons.prems(1), of c] Cons.prems(2)
      deque_append_drop [of 30 xs c]
    by simp_all
  then have "\<not> session_ready ?t"
    using Cons.prems(1) by (simp add: session_ready_def)
  from Cons.IH [OF this step(1)] step show ?case by simp
qed

lemma put_all_fits:
  "putters q = [] \<Longrightarrow> length (items q) + length bs \<le> maxsize q \<Longrightarrow>
     foldl (\<lambda>q b. queue_put q (Some b)) q bs = q\<lparr>items := items q @ map Some bs\<rparr>"
proof (induction bs arbitrary: q)
  case Nil
  then show ?case by simp
next
  case (Cons b bs)
  then have nf: "\<not> queue_full q" by (simp add: queue_full_def)
  then have "queue_put q (Some b) = q\<lparr>items := items q @ [Some b]\<rparr>"
    by (simp add: queue_put_def)
  with Cons.IH [of "q\<lparr>items := items q @ [Some b]\<rparr>"] Cons.prems show ?case by simp
qed

lemma audio_callback_drains:
  assumes "session_active t" and "send_queue t = Some (new_queue 300)"
    and "length (mic_prebuffer t) \<le> 30"
  shows "send_queue (audio_callback t c) =
           Some ((new_queue 300)\<lparr>items := map Some (mic_prebuffer t @ [c])\<rparr>) \<and>
         mic_prebuffer (audio_callback t c) = []"
proof -
  have "foldl (\<lambda>q b. queue_put q (Some b)) (new_queue 300) (mic_prebuffer t) =
      (new_queue 300)\<lparr>items := map Some (mic_prebuffer t)\<rparr>"
    using put_all_fits [of "new_queue 300" "mic_prebuffer t"] assms(3)
    by (simp add: new_queue_def)
  then show ?thesis
    using assms by (simp add: audio_callback_def queue_put_def queue_full_def new_queue_def)
qed


lemma start_session_reachable:
  "\<not> session_active t \<Longrightarrow>
   start_session t reachable_service =
     ((emit [Ws_connect 20 20, Ws_send_start_session]
         (t\<lparr>session_active := True, session_count := session_count t + 1\<rparr>))
       \<lparr>ws_conn := True, session_id := Some (ascii ''sid''), reconnect_attempts := 0,
         send_queue := Some (new_queue (max_queue_size t)),
         active_tasks := active_tasks t @
           [Sender_task (session_count t + 1), Receiver_task (session_count t + 1),
            Heartbeat_task (session_count t + 1)]\<rparr>, None)"
  by (simp add: start_session_def session_claim_def session_open_def start_session_body_def reachable_service_def emit_def
      connect_loop.simps always_connects_def max_connect_attempts_def Let_def)

lemma session_open_ready:
  assumes "session_ready (fst (session_open t env))"
  shows "send_queue (fst (session_open t env)) = Some (new_queue (max_queue_size t)) \<and>
         mic_prebuffer (fst (session_open t env)) = mic_prebuffer t"
proof -
  obtain t1 r where b: "start_session_body t env = (t1, r)" by (cases "start_session_body t env")
  show ?thesis
  proof (cases r)
    case None
    with b have s: "fst (session_open t env) = t1"
      by (simp add: session_open_def)
    from assms s have act: "session_active t1" by (simp add: session_ready_def)
    have "send_queue t1 = Some (new_queue (max_queue_size t))"
      using start_session_body_ok [of t env] b None act by simp
    moreover have "mic_prebuffer t1 = mic_prebuffer t"
      using start_session_body_fields [of t env] b by simp
    ultimately show ?thesis using s by simp
  next
    case (Some e)
    with b have "\<not> session_active (fst (session_open t env))"
      by (simp add: session_open_def Let_def emit_def)
    with assms show ?thesis by (simp add: session_ready_def)
  qed
qed

text \<open>
  When no queue is installed while the session is down and while it opens, the pre-buffer
  does what it is for: chunks captured before the open and during it, at most 30, are the
  first on the new queue, in capture order, before the next captured chunk.
\<close>

lemma prebuffer_drain_without_stale_queue:
  assumes "\<not> session_active t0" and "send_queue t0 = None" and "mic_prebuffer t0 = []"
    and "max_queue_size t0 = 300" and "length (cs1 @ cs2) \<le> 30"
    and "session_ready (open_with_captures (foldl audio_callback t0 cs1) cs2 env)"
  shows "send_queue (audio_callback (open_with_captures (foldl audio_callback t0 cs1) cs2 env) c) =
           Some ((new_queue 300)\<lparr>items := map Some (cs1 @ cs2 @ [c])\<rparr>)"
proof -
  let ?t1 = "foldl audio_callback t0 cs1"
  have nr0: "\<not> session_ready t0" using assms(1) by (simp add: session_ready_def)
  have c1: "mic_prebuffer ?t1 = drop (length cs1 - 30) cs1" "session_active ?t1 = session_active t0"
    "send_queue ?t1 = send_queue t0" "max_queue_size ?t1 = max_queue_size t0"
    using capture_before_open [OF nr0, of "[]" cs1] assms(3) by simp_all
  let ?t2 = "?t1\<lparr>session_active := True\<rparr>"
  have claim: "session_claim ?t1 = Some ?t2"
    using c1(2) assms(1) by (simp add: session_claim_def)
  have nr2: "\<not> session_ready ?t2"
    using c1(3) assms(2) by (simp add: session_ready_def)
  let ?t3 = "foldl audio_callback ?t2 cs2"
  have c2: "mic_prebuffer ?t3 = drop (length (cs1 @ cs2) - 30) (cs1 @ cs2)"
    "max_queue_size ?t3 = max_queue_size ?t2"
    using capture_before_open [OF nr2, of cs1 cs2] c1(1) by simp_all
  let ?t4 = "fst (session_open ?t3 env)"
  have o: "open_with_captures ?t1 cs2 env = ?t4"
    by (simp add: open_with_captures_def claim)
  with assms(6) have rdy: "session_ready ?t4" by simp
  from session_open_ready [OF rdy] c2 c1(4) assms(4,5)
  have r: "send_queue ?t4 = Some (new_queue 300)" "mic_prebuffer ?t4 = cs1 @ cs2"
    by simp_all
  have act: "session_active ?t4" using rdy by (simp add: session_ready_def)
  from audio_callback_drains [OF act r(1), of c] r(2) assms(5)
  show ?thesis unfolding o by simp
qed

lemma slow_session_state:
  "slow_session =
     (new_translator True True)
       \<lparr>session_count := 1, ws_conn := True, session_id := Some (ascii ''sid''),
         reconnect_attempts := 1, send_queue := Some (new_queue 300),
         active_tasks := [Sender_task 1, Receiver_task 1, Heartbeat_task 1],
         trace := [Ws_connect 20 20, Ws_send_start_session, Warn Audio_send_slow,
                   Warn (Reconnect_in 2 1), Sleep 2]\<rparr>"
  unfolding slow_session_def
  by (simp add: start_session_reachable new_translator_def session_failed_def emit_def
      drain_queue_def new_queue_def ascii_def Let_def)

text \<open>
  Claim C5, with a stale queue. After an \<open>AudioSendSlow\<close> failure the flag is down and the
  old queue stays installed while the receiver sleeps. A chunk captured then is
  pre-buffered. The next \<open>_start_session\<close> raises the flag before it dials, so the chunk
  captured during the dial finds flag and old queue and drains the pre-buffer into that
  queue. When the session has opened, the new queue replaces the old one: the first chunk
  enqueued after the open is the newly captured one, and the chunks captured before the
  open are on no queue.
\<close>

theorem prebuffer_lost_on_stale_queue:
  "session_active slow_session = False \<and>
   mic_prebuffer (audio_callback slow_session [1, 2]) = [[1, 2]] \<and>
   send_queue (audio_callback ((audio_callback slow_session [1, 2])\<lparr>session_active := True\<rparr>)
       [3, 4]) = Some ((new_queue 300)\<lparr>items := [Some [1, 2], Some [3, 4]]\<rparr>) \<and>
   session_ready (open_with_captures (audio_callback slow_session [1, 2]) [[3, 4]]
       reachable_service) \<and>
   send_queue (audio_callback (open_with_captures (audio_callback slow_session [1, 2]) [[3, 4]]
       reachable_service) [5, 6]) = Some ((new_queue 300)\<lparr>items := [Some [5, 6]]\<rparr>)"
  unfolding slow_session_state
  by (simp add: audio_callback_def open_with_captures_def session_claim_def session_open_def
      start_session_body_def reachable_service_def always_connects_def connect_loop.simps
      max_connect_attempts_def new_translator_def emit_def deque_append_def prebuffer_maxlen_def
      queue_put_def queue_full_def new_queue_def session_ready_def Let_def)

section \<open>Redaction of secrets in log messages\<close>

lemma match_literal_length:
  "match_literal k s = Some r \<Longrightarrow> length s = length k + length r"
  by (induction k s rule: match_literal.induct) (simp_all split: if_splits)

lemma match_tail_length: "match_tail s = Some r \<Longrightarrow> length r < length s"
proof -
  assume a: "match_tail s = Some r"
  then obtain c s2 where d: "dropWhile py_isspace s = c # s2"
    by (cases "dropWhile py_isspace s") (simp_all add: match_tail_def)
  with a have r: "r = dropWhile value_char (dropWhile py_isspace s2)"
    by (simp add: match_tail_def Let_def split: if_splits)
  have "length r \<le> length s2"
    unfolding r
    by (rule order_trans [OF length_dropWhile_le length_dropWhile_le])
  moreover have "length (c # s2) \<le> length s"
    using length_dropWhile_le [of py_isspace s] d by simp
  ultimately show ?thesis by simp
qed

lemma match_at_shorter: "match_at ks s = Some (g, rest) \<Longrightarrow> length rest < length s"
proof (induction ks)
  case Nil
  then show ?case by simp
next
  case (Cons k ks)
  show ?case
  proof (cases "match_literal k s")
    case None
    with Cons show ?thesis by simp
  next
    case (Some r)
    show ?thesis
    proof (cases "match_tail r")
      case None
      with Some Cons show ?thesis by simp
    next
      case (Some rest')
      with \<open>match_literal k s = Some r\<close> Cons.prems have "rest' = rest" by simp
      with match_tail_length [OF Some] match_literal_length [OF \<open>match_literal k s = Some r\<close>]
      show ?thesis by simp
    qed
  qed
qed

lemma redact_match:
  "match_at secret_keys s = Some (g, rest) \<Longrightarrow> redact s = g @ ascii ''=<REDACTED>'' @ redact rest"
  using match_at_shorter [of secret_keys s g rest]
  by (cases s) (simp_all add: redact.simps secret_keys_def)

lemma redact_no_match:
  "match_at secret_keys (c # cs) = None \<Longrightarrow> redact (c # cs) = c # redact cs"
  by (simp add: redact.simps)

lemma redact_unmatched_prefix:
  "unmatched_prefix pre rest \<Longrightarrow> redact (pre @ rest) = pre @ redact rest"
  by (induction pre) (simp_all add: redact_no_match)


lemma match_literal_variant:
  "map sre_fold k' = map sre_fold k \<Longrightarrow> match_literal k (k' @ r) = Some r"
proof (induction k arbitrary: k')
  case Nil
  then show ?case by simp
next
  case (Cons p ps)
  then obtain c cs where "k' = c # cs" "sre_fold c = sre_fold p" "map sre_fold cs = map sre_fold ps"
    by (cases k') simp_all
  with Cons.IH [of cs] show ?case by simp
qed

lemma match_literal_folds:
  "match_literal k s = Some r \<Longrightarrow> map sre_fold (take (length k) s) = map sre_fold k"
  by (induction k s rule: match_literal.induct) (simp_all split: if_splits)

lemma secret_keys_prefix_free:
  "\<forall>k \<in> set secret_keys. \<forall>k0 \<in> set secret_keys. k0 \<noteq> k \<longrightarrow>
     take (min (length k) (length k0)) (map sre_fold k) \<noteq>
     take (min (length k) (length k0)) (map sre_fold k0)"
  by (simp add: secret_keys_def ascii_def sre_fold_def)

lemma other_key_fails:
  assumes "k \<in> set secret_keys" and "k0 \<in> set secret_keys" and "k0 \<noteq> k"
    and "map sre_fold k' = map sre_fold k"
  shows "match_literal k0 (k' @ r) = None"
proof (rule ccontr)
  assume "match_literal k0 (k' @ r) \<noteq> None"
  then obtain r0 where "match_literal k0 (k' @ r) = Some r0" by auto
  then have f: "map sre_fold (take (length k0) (k' @ r)) = map sre_fold k0"
    by (rule match_literal_folds)
  define n where "n = min (length k) (length k0)"
  have len: "length k' = length k"
    using assms(4) by (metis length_map)
  have n: "n \<le> length k0" "n \<le> length k'"
    using len by (simp_all add: n_def)
  have "take n (map sre_fold k0) = take n (map sre_fold (take (length k0) (k' @ r)))"
    using f by (rule arg_cong [where f = "take n", symmetric])
  also have "\<dots> = map sre_fold (take n (take (length k0) (k' @ r)))"
    by (rule take_map)
  also have "take n (take (length k0) (k' @ r)) = take n (k' @ r)"
    using n(1) by (simp only: take_take min.absorb1)
  also have "take n (k' @ r) = take n k'"
    using n(2) by simp
  also have "map sre_fold (take n k') = take n (map sre_fold k)"
    using assms(4) by (metis take_map)
  finally have "take n (map sre_fold k) = take n (map sre_fold k0)" by simp
  then show False
    using secret_keys_prefix_free assms(1-3) unfolding n_def by blast
qed

lemma match_at_first:
  "k \<in> set ks \<Longrightarrow> \<forall>k0 \<in> set ks. k0 \<noteq> k \<longrightarrow> match_literal k0 s = None \<Longrightarrow>
   match_literal k s = Some r \<Longrightarrow> match_tail r = Some post \<Longrightarrow>
   match_at ks s = Some (take (length k) s, post)"
proof (induction ks)
  case Nil
  then show ?case by simp
next
  case (Cons a ks)
  show ?case
  proof (cases "a = k")
    case True
    with Cons.prems show ?thesis by simp
  next
    case False
    with Cons.prems have "match_literal a s = None" "k \<in> set ks" by simp_all
    with Cons show ?thesis by simp
  qed
qed

lemma match_at_secret_key:
  assumes "is_secret_key k'" and "match_tail r = Some post"
  shows "match_at secret_keys (k' @ r) = Some (k', post)"
proof -
  from assms(1) obtain k where k: "k \<in> set secret_keys" "map sre_fold k' = map sre_fold k"
    by (auto simp: is_secret_key_def list_ex_iff)
  then have len: "length k' = length k" by (metis length_map)
  have "match_at secret_keys (k' @ r) = Some (take (length k) (k' @ r), post)"
  proof (rule match_at_first [OF k(1)])
    show "\<forall>k0 \<in> set secret_keys. k0 \<noteq> k \<longrightarrow> match_literal k0 (k' @ r) = None"
      using other_key_fails [OF k(1) _ _ k(2)] by blast
    show "match_literal k (k' @ r) = Some r" by (rule match_literal_variant [OF k(2)])
    show "match_tail r = Some post" by (rule assms(2))
  qed
  with len show ?thesis by simp
qed

lemma not_space_seps: "\<not> py_isspace 58" "\<not> py_isspace 61"
  by (simp_all add: py_isspace_def)

lemma match_tail_value:
  assumes "list_all py_isspace w1" and "sep = 58 \<or> sep = 61" and "list_all py_isspace w2"
    and "whole_value v post"
  shows "match_tail (w1 @ [sep] @ w2 @ v @ post) = Some post"
proof -
  from assms(4) obtain c cs where v: "v = c # cs" "value_char c" "list_all value_char cs"
    by (cases v) (simp_all add: whole_value_def)
  have d1: "dropWhile py_isspace (w1 @ [sep] @ w2 @ v @ post) = sep # w2 @ v @ post"
    using assms(1,2) not_space_seps by (auto simp: dropWhile_append list_all_iff)
  have d2: "dropWhile py_isspace (w2 @ v @ post) = v @ post"
    using assms(3) v by (simp add: dropWhile_append list_all_iff value_char_def)
  have tk: "takeWhile value_char (v @ post) = v"
    using assms(4) by (cases post) (simp_all add: whole_value_def list_all_iff takeWhile_append2)
  have dr: "dropWhile value_char (v @ post) = post"
    using assms(4) by (cases post) (simp_all add: whole_value_def list_all_iff dropWhile_append)
  have vne: "v \<noteq> []" using v(1) by simp
  show ?thesis
    unfolding match_tail_def d1
    using assms(2) vne by (auto simp: d2 tk dr)
qed


lemma redact_keyed:
  assumes "is_secret_key k" and "list_all py_isspace w1" and "sep = 58 \<or> sep = 61"
    and "list_all py_isspace w2" and "whole_value v post"
    and "unmatched_prefix pre (k @ w1 @ [sep] @ w2 @ v @ post)"
  shows "redact (keyed_message pre k w1 sep w2 v post) =
           pre @ k @ ascii ''=<REDACTED>'' @ redact post"
proof -
  have "match_tail (w1 @ [sep] @ w2 @ v @ post) = Some post"
    by (rule match_tail_value [OF assms(2-5)])
  then have "match_at secret_keys (k @ w1 @ [sep] @ w2 @ v @ post) = Some (k, post)"
    by (rule match_at_secret_key [OF assms(1)])
  then have "redact (k @ w1 @ [sep] @ w2 @ v @ post) = k @ ascii ''=<REDACTED>'' @ redact post"
    by (rule redact_match)
  with redact_unmatched_prefix [OF assms(6)] show ?thesis
    by (simp add: keyed_message_def)
qed

lemma redact_plain_tail: "redact (ascii '', ok'') = ascii '', ok''"
  by (simp add: redact.simps secret_keys_def ascii_def sre_fold_def)

text \<open>
  Claim C9, amended. Take a log message in which one of the six key names
  \<open>API_APP_KEY\<close>, \<open>API_ACCESS_KEY\<close>, \<open>API_RESOURCE_ID\<close>, \<open>X-Api-App-Key\<close>,
  \<open>X-Api-Access-Key\<close>, \<open>X-Api-Resource-Id\<close> (in any letter case) is followed by optional
  whitespace, \<open>:\<close> or \<open>=\<close>, optional whitespace and a non-empty value without whitespace,
  comma or semicolon that runs to the end of the message or to such a character, and in
  which no match of the pattern begins before that key. The filter emits the text before
  the key, the key, \<open>=<REDACTED>\<close> and the redacted remainder; so any two such values give
  the same emitted message.
\<close>

theorem secret_redaction:
  assumes "is_secret_key k" and "list_all py_isspace w1" and "sep = 58 \<or> sep = 61"
    and "list_all py_isspace w2" and "whole_value v1 post" and "whole_value v2 post"
    and "unmatched_prefix pre (k @ w1 @ [sep] @ w2 @ v1 @ post)"
    and "unmatched_prefix pre (k @ w1 @ [sep] @ w2 @ v2 @ post)"
  shows "secret_redact_filter (keyed_message pre k w1 sep w2 v1 post) =
           pre @ k @ ascii ''=<REDACTED>'' @ redact post \<and>
         secret_redact_filter (keyed_message pre k w1 sep w2 v1 post) =
           secret_redact_filter (keyed_message pre k w1 sep w2 v2 post)"
proof -
  have ne: "keyed_message pre k w1 sep w2 v1 post \<noteq> []" "keyed_message pre k w1 sep w2 v2 post \<noteq> []"
    by (simp_all add: keyed_message_def)
  show ?thesis
    using redact_keyed [OF assms(1-5) assms(7)] redact_keyed [OF assms(1-4) assms(6) assms(8)] ne
    by (simp add: secret_redact_filter_def)
qed

theorem secret_redaction_witness:
  "secret_redact_filter (ascii ''headers x-api-access-key: s3cr3t, ok'') =
     ascii ''headers x-api-access-key=<REDACTED>, ok'' \<and>
   secret_redact_filter (ascii ''headers x-api-access-key: other, ok'') =
     ascii ''headers x-api-access-key=<REDACTED>, ok''"
proof -
  have k: "is_secret_key (ascii ''x-api-access-key'')"
    by (simp add: is_secret_key_def secret_keys_def ascii_def sre_fold_def)
  have w: "list_all py_isspace []" "(58::nat) = 58 \<or> (58::nat) = 61" "list_all py_isspace [32]"
    by (simp_all add: py_isspace_def)
  have v: "whole_value (ascii ''s3cr3t'') (ascii '', ok'')"
    "whole_value (ascii ''other'') (ascii '', ok'')"
    by (simp_all add: whole_value_def value_char_def py_isspace_def ascii_def)
  have u: "unmatched_prefix (ascii ''headers '')
      (ascii ''x-api-access-key'' @ [] @ [58] @ [32] @ ascii ''s3cr3t'' @ ascii '', ok'')"
    "unmatched_prefix (ascii ''headers '')
      (ascii ''x-api-access-key'' @ [] @ [58] @ [32] @ ascii ''other'' @ ascii '', ok'')"
    by (simp_all add: secret_keys_def ascii_def sre_fold_def)
  have m: "keyed_message (ascii ''headers '') (ascii ''x-api-access-key'') [] 58 [32]
        (ascii ''s3cr3t'') (ascii '', ok'') = ascii ''headers x-api-access-key: s3cr3t, ok''"
    "keyed_message (ascii ''headers '') (ascii ''x-api-access-key'') [] 58 [32]
        (ascii ''other'') (ascii '', ok'') = ascii ''headers x-api-access-key: other, ok''"
    "ascii ''headers '' @ ascii ''x-api-access-key'' @ ascii ''=<REDACTED>'' @ ascii '', ok'' =
       ascii ''headers x-api-access-key=<REDACTED>, ok''"
    by (simp_all add: keyed_message_def ascii_def)
  note r = secret_redaction [OF k w v u, unfolded m redact_plain_tail]
  from r show ?thesis by metis
qed

theorem secret_redaction_counterexample:
  "secret_redact_filter (ascii ''X-Api-Connect-Id: 1234'') = ascii ''X-Api-Connect-Id: 1234'' \<and>
   secret_redact_filter (ascii ''X-Api-Connect-Id: 5678'') = ascii ''X-Api-Connect-Id: 5678'' \<and>
   secret_redact_filter (ascii ''API_TOKEN=abc'') = ascii ''API_TOKEN=abc''"
  by (simp add: secret_redact_filter_def redact.simps secret_keys_def ascii_def sre_fold_def)

end
